theory Spec2Isabelle
  imports Main
begin

section \<open>Data model of lis.py\<close>

text \<open>
  The interpreter of \<^verbatim>\<open>mylis/mylis_2/lis.py\<close> works on Python objects. An
  Expression is an int, a float, a str (a Symbol) or a list of Expressions. Python floats
  are a type of the host language: the model takes them as the type parameter \<open>'f\<close> and
  takes the three host operations the interpreter applies to them (\<open>float(token)\<close>,
  \<open>str(x)\<close> and the truth value of \<open>x\<close>) from a record of host operations.
  Python ints are unbounded, so they are \<open>int\<close>. A source text is a list of characters
  with code points below 256.
\<close>

datatype 'f exp =
    Num int
  | Flt 'f
  | Sym string
  | Lst "'f exp list"

text \<open>
  The exceptions the interpreter raises itself (module \<^verbatim>\<open>exceptions\<close>) and the
  exceptions of the host that escape from it. \<open>InvalidSyntax\<close> carries the rendering
  \<open>lispstr(exp)\<close> it is raised with, \<open>UndefinedSymbol\<close> and \<open>KeyError\<close> the name.
  The message of \<open>EvaluatorException\<close> holds the \<open>repr\<close> of host objects and is not
  modelled. \<open>HostError\<close> stands for any other exception a primitive may raise.
\<close>

datatype error =
    UnexpectedEndOfSource
  | UnexpectedCloseParen
  | UndefinedSymbol string
  | InvalidSyntax string
  | EvaluatorException
  | KeyError string
  | IndexError
  | TypeError
  | UnboundLocalError
  | HostError string

section \<open>Tokenizer\<close>

text \<open>
  \<^verbatim>\<open>s.replace('(', ' ( ').replace(')', ' ) ').split()\<close>.
  \<open>str.split()\<close> without a separator splits at runs of whitespace and yields no
  empty string. The whitespace characters below code point 256 are 9 to 13, 28 to 32,
  133 and 160.
\<close>

definition isspace :: "char \<Rightarrow> bool" where
  "isspace c = ((of_char c :: nat) \<in> {9, 10, 11, 12, 13, 28, 29, 30, 31, 32, 133, 160})"

fun replace_char :: "char \<Rightarrow> string \<Rightarrow> string \<Rightarrow> string" where
  "replace_char old new [] = []"
| "replace_char old new (c # cs) =
     (if c = old then new @ replace_char old new cs else c # replace_char old new cs)"

text \<open>\<open>split_ws cur s\<close>: \<open>cur\<close> is the token being collected.\<close>

fun split_ws :: "string \<Rightarrow> string \<Rightarrow> string list" where
  "split_ws cur [] = (if cur = [] then [] else [cur])"
| "split_ws cur (c # cs) =
     (if isspace c then (if cur = [] then split_ws [] cs else cur # split_ws [] cs)
      else split_ws (cur @ [c]) cs)"

definition split :: "string \<Rightarrow> string list" where
  "split s = split_ws [] s"

definition tokenize :: "string \<Rightarrow> string list" where
  "tokenize s = split (replace_char (CHR '')'') '' ) '' (replace_char (CHR ''('') '' ( '' s))"

section \<open>Atoms\<close>

text \<open>
  \<open>int(token)\<close> in base 10: an optional sign, then decimal digits, where single
  underscores may stand between digits. \<open>None\<close> is the \<open>ValueError\<close>. A token holds no
  whitespace, so the stripping \<open>int\<close> does first is left out. Ints are unbounded: the
  limit that later releases of the host put on the number of digits \<open>int\<close> and \<open>str\<close>
  convert (4300 unless it is configured otherwise) is not modelled.
\<close>

definition isdigit :: "char \<Rightarrow> bool" where
  "isdigit c = (48 \<le> (of_char c :: nat) \<and> (of_char c :: nat) \<le> 57)"

definition digit_val :: "char \<Rightarrow> nat" where
  "digit_val c = of_char c - 48"

fun py_digits :: "nat \<Rightarrow> string \<Rightarrow> nat option" where
  "py_digits acc [] = Some acc"
| "py_digits acc [c] = (if isdigit c then Some (10 * acc + digit_val c) else None)"
| "py_digits acc (c # d # cs) =
     (if isdigit c then py_digits (10 * acc + digit_val c) (d # cs)
      else if c = CHR ''_'' \<and> isdigit d then py_digits (10 * acc + digit_val d) cs
      else None)"

definition py_nat :: "string \<Rightarrow> nat option" where
  "py_nat s = (case s of [] \<Rightarrow> None
     | c # cs \<Rightarrow> if isdigit c then py_digits (digit_val c) cs else None)"

definition py_int :: "string \<Rightarrow> int option" where
  "py_int s = (case s of [] \<Rightarrow> None
     | c # cs \<Rightarrow>
         if c = CHR ''-'' then map_option (\<lambda>n. - int n) (py_nat cs)
         else if c = CHR ''+'' then map_option int (py_nat cs)
         else map_option int (py_nat s))"

text \<open>\<open>str(n)\<close> for an int.\<close>

definition digit_char :: "nat \<Rightarrow> char" where
  "digit_char d = char_of (48 + d)"

fun str_nat :: "nat \<Rightarrow> string" where
  "str_nat n = (if n < 10 then [digit_char n] else str_nat (n div 10) @ [digit_char (n mod 10)])"

declare str_nat.simps [simp del]

definition str_int :: "int \<Rightarrow> string" where
  "str_int i = (if i < 0 then CHR ''-'' # str_nat (nat (- i)) else str_nat (nat i))"

text \<open>
  The operations of the host on floats: \<open>py_float\<close> is \<open>float(token)\<close>, with \<open>None\<close>
  for \<open>ValueError\<close>; \<open>str_float\<close> is \<open>str(x)\<close>; \<open>bool_float\<close> is the truth value.
\<close>

record 'f float_ops =
  py_float :: "string \<Rightarrow> 'f option"
  str_float :: "'f \<Rightarrow> string"
  bool_float :: "'f \<Rightarrow> bool"

text \<open>\<open>parse_atom\<close>: numbers become numbers; every other token is a symbol.\<close>

definition parse_atom :: "'f float_ops \<Rightarrow> string \<Rightarrow> 'f exp" where
  "parse_atom h token =
     (case py_int token of
        Some n \<Rightarrow> Num n
      | None \<Rightarrow> (case py_float h token of Some x \<Rightarrow> Flt x | None \<Rightarrow> Sym token))"

section \<open>Reader\<close>

text \<open>
  \<open>read_from_tokens\<close> pops tokens from a list it shares with its recursive calls: the
  model returns the tokens that are left. The function and the \<open>while\<close> loop that
  collects the elements of a list call each other; both take fuel, one unit for each
  call and each turn of the loop, and \<open>None\<close> means that the fuel ran out.
  \<open>read_list\<close> is the loop, \<open>acc\<close> is the list \<open>exp\<close> built so far.
\<close>

fun read_from_tokens :: "'f float_ops \<Rightarrow> nat \<Rightarrow> string list \<Rightarrow> (error + 'f exp \<times> string list) option"
  and read_list :: "'f float_ops \<Rightarrow> nat \<Rightarrow> 'f exp list \<Rightarrow> string list \<Rightarrow> (error + 'f exp \<times> string list) option"
where
  "read_from_tokens h 0 tokens = None"
| "read_from_tokens h (Suc n) [] = Some (Inl UnexpectedEndOfSource)"
| "read_from_tokens h (Suc n) (token # tokens) =
     (if ''('' = token then read_list h n [] tokens
      else if '')'' = token then Some (Inl UnexpectedCloseParen)
      else Some (Inr (parse_atom h token, tokens)))"
| "read_list h 0 acc tokens = None"
| "read_list h (Suc n) acc [] = Some (Inl UnexpectedEndOfSource)"
| "read_list h (Suc n) acc (t # tokens) =
     (if t = '')'' then Some (Inr (Lst acc, tokens))
      else (case read_from_tokens h n (t # tokens) of
              None \<Rightarrow> None
            | Some (Inl e) \<Rightarrow> Some (Inl e)
            | Some (Inr (x, rest)) \<Rightarrow> read_list h n (acc @ [x]) rest))"

text \<open>
  \<open>parse\<close> reads one expression and drops the tokens after it. The fuel it gives is
  enough for every source (theorem \<open>parse_total\<close>).
\<close>

definition parse :: "'f float_ops \<Rightarrow> string \<Rightarrow> (error + 'f exp) option" where
  "parse h source =
     (let tokens = tokenize source in
      map_option (map_sum id fst) (read_from_tokens h (2 * length tokens + 2) tokens))"

text \<open>\<open>lispstr\<close> on expressions; \<open>join\<close> is \<open>' '.join\<close>.\<close>

fun join :: "string list \<Rightarrow> string" where
  "join [] = []"
| "join [s] = s"
| "join (s # t # ss) = s @ '' '' @ join (t # ss)"

fun lispstr :: "'f float_ops \<Rightarrow> 'f exp \<Rightarrow> string" where
  "lispstr h (Lst xs) = ''('' @ join (map (lispstr h) xs) @ '')''"
| "lispstr h (Num n) = str_int n"
| "lispstr h (Flt x) = str_float h x"
| "lispstr h (Sym s) = s"

section \<open>Values, dictionaries and environments\<close>

text \<open>
  A dict is a list of key-value pairs in insertion order, with one pair for each key. The
  dicts of the interpreter are shared and updated in place, so they live in a store and
  are named by their index in it. An \<open>Environment\<close> is a \<open>ChainMap\<close>: its state is
  the list \<open>maps\<close>, fixed when the object is made, and each element of \<open>maps\<close> is a dict
  or, as in \<open>Environment(local_env, self.definition_env)\<close>, another Environment.
  The model writes an Environment as its list \<open>maps\<close>.
\<close>

datatype pymap = Dict nat | Env "pymap list"

type_synonym environment = "pymap list"

text \<open>
  The values of the evaluator. A \<open>Procedure\<close> holds \<open>parms\<close>, \<open>body\<close> and
  \<open>definition_env\<close>; no statement of the source assigns to these fields after
  \<open>__init__\<close>. \<open>VBuiltin\<close> is a callable of the host, named by the key it has in
  \<open>standard_env\<close>. \<open>VNone\<close> is \<open>None\<close>.
\<close>

datatype 'f val =
    VInt int
  | VFlt 'f
  | VSym string
  | VList "'f val list"
  | VProc "'f exp list" "'f exp list" environment
  | VBuiltin string
  | VNone
  | VBool bool

type_synonym 'f dict = "('f exp \<times> 'f val) list"

type_synonym 'f store = "'f dict list"

text \<open>
  The host: the float operations and the callables of the primitive table.
  \<open>call_builtin name values\<close> is the call \<open>proc(*values)\<close> of the callable
  bound to \<open>name\<close>; the callables modelled do not call the evaluator back.
\<close>

record 'f host =
  floats :: "'f float_ops"
  call_builtin :: "string \<Rightarrow> 'f val list \<Rightarrow> error + 'f val"

text \<open>The truth value of a Python object.\<close>

fun truthy :: "'f host \<Rightarrow> 'f val \<Rightarrow> bool" where
  "truthy h (VInt n) = (n \<noteq> 0)"
| "truthy h (VFlt x) = bool_float (floats h) x"
| "truthy h (VSym s) = (s \<noteq> [])"
| "truthy h (VList vs) = (vs \<noteq> [])"
| "truthy h (VProc parms body env) = True"
| "truthy h (VBuiltin name) = True"
| "truthy h VNone = False"
| "truthy h (VBool b) = b"

text \<open>An expression returned by \<open>quote\<close> is the same object, now a value.\<close>

fun quoted :: "'f exp \<Rightarrow> 'f val" where
  "quoted (Num n) = VInt n"
| "quoted (Flt x) = VFlt x"
| "quoted (Sym s) = VSym s"
| "quoted (Lst xs) = VList (map quoted xs)"

subsection \<open>Dicts\<close>

definition dict_get :: "'f dict \<Rightarrow> 'f exp \<Rightarrow> 'f val option" where
  "dict_get d k = map_of d k"

definition dict_contains :: "'f dict \<Rightarrow> 'f exp \<Rightarrow> bool" where
  "dict_contains d k = (k \<in> fst ` set d)"

text \<open>\<open>d[k] = v\<close>: an existing key keeps its place, a new key goes to the end.\<close>

fun dict_set :: "'f dict \<Rightarrow> 'f exp \<Rightarrow> 'f val \<Rightarrow> 'f dict" where
  "dict_set [] k v = [(k, v)]"
| "dict_set (p # ps) k v = (if fst p = k then (k, v) # ps else p # dict_set ps k v)"

text \<open>
  A list is not hashable. \<open>dict(pairs)\<close> inserts the pairs in order and raises
  \<open>TypeError\<close> at the first key that is a list. Keys are compared as expressions: the
  model keeps the keys \<open>1\<close> and \<open>1.0\<close> apart, which Python identifies; the
  interpreter looks up symbols only.
\<close>

fun hashable :: "'f exp \<Rightarrow> bool" where
  "hashable (Lst xs) = False"
| "hashable _ = True"

fun dict_update :: "'f dict \<Rightarrow> ('f exp \<times> 'f val) list \<Rightarrow> error + 'f dict" where
  "dict_update d [] = Inr d"
| "dict_update d ((k, v) # kvs) = (if hashable k then dict_update (dict_set d k v) kvs else Inl TypeError)"

definition dict_of :: "('f exp \<times> 'f val) list \<Rightarrow> error + 'f dict" where
  "dict_of kvs = dict_update [] kvs"

subsection \<open>The store\<close>

text \<open>
  \<open>dict_at st a\<close> is the dict at address \<open>a\<close>. Addresses come from \<open>new_dict\<close> only,
  so an address in use is below the length of the store; an address beyond it reads as the
  empty dict.
\<close>

definition dict_at :: "'f store \<Rightarrow> nat \<Rightarrow> 'f dict" where
  "dict_at st a = (if a < length st then st ! a else [])"

definition new_dict :: "'f dict \<Rightarrow> 'f store \<Rightarrow> nat \<times> 'f store" where
  "new_dict d st = (length st, st @ [d])"

subsection \<open>ChainMap and Environment\<close>

text \<open>
  \<open>ChainMap.__contains__\<close>: \<open>any(key in m for m in self.maps)\<close>.
\<close>

fun contains :: "'f store \<Rightarrow> pymap list \<Rightarrow> 'f exp \<Rightarrow> bool" where
  "contains st [] key = False"
| "contains st (Dict a # maps) key = (dict_contains (dict_at st a) key \<or> contains st maps key)"
| "contains st (Env ms # maps) key = (contains st ms key \<or> contains st maps key)"

text \<open>
  \<open>ChainMap.__getitem__\<close>: the first of \<open>self.maps\<close> that has the key gives the
  value; \<open>None\<close> is the \<open>KeyError\<close>.
\<close>

fun getitem :: "'f store \<Rightarrow> pymap list \<Rightarrow> 'f exp \<Rightarrow> 'f val option" where
  "getitem st [] key = None"
| "getitem st (Dict a # maps) key =
     (case dict_get (dict_at st a) key of Some v \<Rightarrow> Some v | None \<Rightarrow> getitem st maps key)"
| "getitem st (Env ms # maps) key =
     (case getitem st ms key of Some v \<Rightarrow> Some v | None \<Rightarrow> getitem st maps key)"

text \<open>
  \<open>ChainMap.__setitem__\<close>: \<open>self.maps[0][key] = value\<close>. A ChainMap has at least one
  map; on an empty list the index fails.
\<close>

fun setitem :: "'f store \<Rightarrow> pymap list \<Rightarrow> 'f exp \<Rightarrow> 'f val \<Rightarrow> error + 'f store" where
  "setitem st [] key v = Inl IndexError"
| "setitem st (Dict a # maps) key v = Inr (st[a := dict_set (dict_at st a) key v])"
| "setitem st (Env ms # maps) key v = setitem st ms key v"

text \<open>
  \<open>Environment.change\<close>: for each \<open>map\<close> of \<open>self.maps\<close>, if \<open>key in map\<close> then
  \<open>map[key] = value\<close> and return; after the loop \<open>raise KeyError(key)\<close>. Where
  \<open>map\<close> is an Environment, \<open>key in map\<close> and \<open>map[key] = value\<close> are the
  ChainMap methods above.
\<close>

fun change :: "'f store \<Rightarrow> pymap list \<Rightarrow> string \<Rightarrow> 'f val \<Rightarrow> error + 'f store" where
  "change st [] key v = Inl (KeyError key)"
| "change st (Dict a # maps) key v =
     (if dict_contains (dict_at st a) (Sym key)
      then Inr (st[a := dict_set (dict_at st a) (Sym key) v])
      else change st maps key v)"
| "change st (Env ms # maps) key v =
     (if contains st ms (Sym key) then setitem st ms (Sym key) v else change st maps key v)"

subsection \<open>Procedure\<close>

text \<open>
  \<open>Procedure.application_env\<close>: \<open>local_env = dict(zip(self.parms, args))\<close>, then
  \<open>Environment(local_env, self.definition_env)\<close>.
\<close>

definition application_env ::
  "'f exp list \<Rightarrow> environment \<Rightarrow> 'f val list \<Rightarrow> 'f store \<Rightarrow> error + environment \<times> 'f store" where
  "application_env parms definition_env args st =
     (case dict_of (zip parms args) of
        Inl e \<Rightarrow> Inl e
      | Inr local_env \<Rightarrow>
          (let (a, st') = new_dict local_env st in Inr ([Dict a, Env definition_env], st')))"

section \<open>Evaluator\<close>

text \<open>
  A computation takes the store and gives \<open>None\<close> when the fuel ran out, or else the
  store it leaves together with the exception raised (\<open>Inl\<close>) or the value returned
  (\<open>Inr\<close>). \<open>and_then\<close> runs a second computation on the value of a first one and
  passes an exception on.
\<close>

type_synonym ('f, 'a) comp = "'f store \<Rightarrow> ((error + 'a) \<times> 'f store) option"

type_synonym 'f evaluator = "'f exp \<Rightarrow> environment \<Rightarrow> ('f, 'f val) comp"

definition and_then :: "('f, 'a) comp \<Rightarrow> ('a \<Rightarrow> ('f, 'b) comp) \<Rightarrow> ('f, 'b) comp" where
  "and_then m f st =
     (case m st of
        None \<Rightarrow> None
      | Some (Inl e, st') \<Rightarrow> Some (Inl e, st')
      | Some (Inr v, st') \<Rightarrow> f v st')"

definition returns :: "'a \<Rightarrow> ('f, 'a) comp" where
  "returns v st = Some (Inr v, st)"

definition raises :: "error \<Rightarrow> ('f, 'a) comp" where
  "raises e st = Some (Inl e, st)"

text \<open>
  The helpers below call \<open>evaluate\<close>; they take it as the argument \<open>ev\<close>, which is
  \<open>evaluate\<close> with the fuel that is left.

  \<open>eval_body\<close> is the loop \<^verbatim>\<open>for exp in body: result = evaluate(exp, env)\<close>
  followed by \<^verbatim>\<open>return result\<close>. It stands in \<open>Procedure.__call__\<close> and twice in
  \<open>cond_form\<close>. \<open>result\<close> is unbound until the first turn of the loop.
\<close>

fun eval_body :: "'f evaluator \<Rightarrow> 'f exp list \<Rightarrow> environment \<Rightarrow> 'f val option \<Rightarrow> ('f, 'f val) comp" where
  "eval_body ev [] env result =
     (case result of None \<Rightarrow> raises UnboundLocalError | Some v \<Rightarrow> returns v)"
| "eval_body ev (exp # body) env result =
     and_then (ev exp env) (\<lambda>v. eval_body ev body env (Some v))"

text \<open>\<open>Procedure.__call__\<close>.\<close>

definition Procedure_call ::
  "'f evaluator \<Rightarrow> 'f exp list \<Rightarrow> 'f exp list \<Rightarrow> environment \<Rightarrow> 'f val list \<Rightarrow> ('f, 'f val) comp" where
  "Procedure_call ev parms body definition_env args st =
     (case application_env parms definition_env args st of
        Inl e \<Rightarrow> Some (Inl e, st)
      | Inr (env, st') \<Rightarrow> eval_body ev body env None st')"

text \<open>\<open>cond_form\<close>.\<close>

fun cond_form :: "'f host \<Rightarrow> 'f evaluator \<Rightarrow> 'f exp list \<Rightarrow> environment \<Rightarrow> ('f, 'f val) comp" where
  "cond_form h ev [] env = returns VNone"
| "cond_form h ev (clause # clauses) env =
     (case clause of
        Lst (test # body) \<Rightarrow>
          if test = Sym ''else'' then eval_body ev body env None
          else and_then (ev test env)
                 (\<lambda>v. if truthy h v then eval_body ev body env None
                      else cond_form h ev clauses env)
      | _ \<Rightarrow> cond_form h ev clauses env)"

text \<open>\<open>or_form\<close> and \<open>and_form\<close>; the last argument of the loops is \<open>value\<close>.\<close>

fun or_loop :: "'f host \<Rightarrow> 'f evaluator \<Rightarrow> 'f exp list \<Rightarrow> environment \<Rightarrow> 'f val \<Rightarrow> ('f, 'f val) comp" where
  "or_loop h ev [] env value = returns value"
| "or_loop h ev (exp # expressions) env value =
     and_then (ev exp env)
       (\<lambda>v. if truthy h v then returns v else or_loop h ev expressions env v)"

definition or_form :: "'f host \<Rightarrow> 'f evaluator \<Rightarrow> 'f exp list \<Rightarrow> environment \<Rightarrow> ('f, 'f val) comp" where
  "or_form h ev expressions env = or_loop h ev expressions env (VBool False)"

fun and_loop :: "'f host \<Rightarrow> 'f evaluator \<Rightarrow> 'f exp list \<Rightarrow> environment \<Rightarrow> 'f val \<Rightarrow> ('f, 'f val) comp" where
  "and_loop h ev [] env value = returns value"
| "and_loop h ev (exp # expressions) env value =
     and_then (ev exp env)
       (\<lambda>v. if \<not> truthy h v then returns v else and_loop h ev expressions env v)"

definition and_form :: "'f host \<Rightarrow> 'f evaluator \<Rightarrow> 'f exp list \<Rightarrow> environment \<Rightarrow> ('f, 'f val) comp" where
  "and_form h ev expressions env = and_loop h ev expressions env (VBool True)"

text \<open>\<^verbatim>\<open>[evaluate(arg, env) for arg in args]\<close>.\<close>

fun eval_args :: "'f evaluator \<Rightarrow> 'f exp list \<Rightarrow> environment \<Rightarrow> ('f, 'f val list) comp" where
  "eval_args ev [] env = returns []"
| "eval_args ev (arg # args) env =
     and_then (ev arg env) (\<lambda>v. and_then (eval_args ev args env) (\<lambda>vs. returns (v # vs)))"

text \<open>\<^verbatim>\<open>for exp in expressions[:-1]: evaluate(exp, env)\<close>.\<close>

fun eval_each :: "'f evaluator \<Rightarrow> 'f exp list \<Rightarrow> environment \<Rightarrow> ('f, unit) comp" where
  "eval_each ev [] env = returns ()"
| "eval_each ev (exp # exps) env = and_then (ev exp env) (\<lambda>v. eval_each ev exps env)"

definition KEYWORDS_1 :: "string list" where
  "KEYWORDS_1 = [''quote'', ''if'', ''define'', ''lambda'']"

definition KEYWORDS_2 :: "string list" where
  "KEYWORDS_2 = [''set!'', ''cond'', ''or'', ''and'', ''begin'']"

definition KEYWORDS :: "string list" where
  "KEYWORDS = KEYWORDS_1 @ KEYWORDS_2"

definition TCO_ENABLED :: bool where
  "TCO_ENABLED = True"

text \<open>
  The patterns of the \<open>match\<close> statement of \<open>evaluate\<close> on a list, one function for
  each \<open>case\<close>: the result is the bindings of the pattern, or \<open>None\<close> when the pattern
  or its guard fails. A string pattern such as \<open>'if'\<close> matches the symbol equal to it.
\<close>

fun match_quote :: "'f exp list \<Rightarrow> 'f exp option" where
  "match_quote [head, exp] =
     (if head = Sym ''quote'' \<or> head = Sym [CHR 0x27] then Some exp else None)"
| "match_quote _ = None"

fun match_if :: "'f exp list \<Rightarrow> ('f exp \<times> 'f exp \<times> 'f exp) option" where
  "match_if [head, test, consequence, alternative] =
     (if head = Sym ''if'' then Some (test, consequence, alternative) else None)"
| "match_if _ = None"

fun match_define :: "'f exp list \<Rightarrow> (string \<times> 'f exp) option" where
  "match_define [head, Sym var, value_exp] =
     (if head = Sym ''define'' then Some (var, value_exp) else None)"
| "match_define _ = None"

fun match_set :: "'f exp list \<Rightarrow> (string \<times> 'f exp) option" where
  "match_set [head, Sym var, value_exp] =
     (if head = Sym ''set!'' then Some (var, value_exp) else None)"
| "match_set _ = None"

fun match_define_proc :: "'f exp list \<Rightarrow> (string \<times> 'f exp list \<times> 'f exp list) option" where
  "match_define_proc (head # Lst (Sym name # parms) # body) =
     (if head = Sym ''define'' \<and> length body > 0 then Some (name, parms, body) else None)"
| "match_define_proc _ = None"

fun match_lambda :: "'f exp list \<Rightarrow> ('f exp list \<times> 'f exp list) option" where
  "match_lambda (head # Lst parms # body) =
     (if head = Sym ''lambda'' \<and> length body > 0 then Some (parms, body) else None)"
| "match_lambda _ = None"

fun match_head :: "string \<Rightarrow> 'f exp list \<Rightarrow> 'f exp list option" where
  "match_head keyword (head # rest) = (if head = Sym keyword then Some rest else None)"
| "match_head keyword [] = None"

fun match_application :: "'f exp list \<Rightarrow> ('f exp \<times> 'f exp list) option" where
  "match_application (op # args) = (if op \<notin> Sym ` set KEYWORDS then Some (op, args) else None)"
| "match_application [] = None"

text \<open>
  \<open>proc(*values)\<close> for a value of the evaluator: a Procedure runs \<open>__call__\<close>, a
  callable of the host is called, any other object is not callable.
\<close>

fun call_value :: "'f host \<Rightarrow> 'f evaluator \<Rightarrow> 'f val \<Rightarrow> 'f val list \<Rightarrow> ('f, 'f val) comp" where
  "call_value h ev (VProc parms body definition_env) values =
     Procedure_call ev parms body definition_env values"
| "call_value h ev (VBuiltin name) values =
     (case call_builtin h name values of Inl e \<Rightarrow> raises e | Inr v \<Rightarrow> returns v)"
| "call_value h ev _ values = raises TypeError"

text \<open>\<^verbatim>\<open>try: return proc(*values)  except TypeError as exc: raise EvaluatorException(msg)\<close>.\<close>

definition try_call :: "'f host \<Rightarrow> 'f evaluator \<Rightarrow> 'f val \<Rightarrow> 'f val list \<Rightarrow> ('f, 'f val) comp" where
  "try_call h ev proc values st =
     (case call_value h ev proc values st of
        Some (Inl TypeError, st') \<Rightarrow> Some (Inl EvaluatorException, st')
      | r \<Rightarrow> r)"

fun is_Procedure :: "'f val \<Rightarrow> bool" where
  "is_Procedure (VProc parms body definition_env) = True"
| "is_Procedure _ = False"

text \<open>
  \<open>evaluate\<close>. Each turn of the \<open>while True\<close> loop and each call of \<open>evaluate\<close>
  takes one unit of fuel: where the source assigns to \<open>exp\<close> (and \<open>env\<close>) and goes
  round the loop, the model calls itself on the new \<open>exp\<close> and \<open>env\<close>. The cases are
  tried in the order of the source.
\<close>

primrec evaluate :: "'f host \<Rightarrow> nat \<Rightarrow> 'f exp \<Rightarrow> environment \<Rightarrow> ('f, 'f val) comp" where
  "evaluate h 0 exp env = (\<lambda>st. None)"
| "evaluate h (Suc n) exp env =
    (case exp of
       Num x \<Rightarrow> returns (VInt x)
     | Flt x \<Rightarrow> returns (VFlt x)
     | Sym var \<Rightarrow>
         (\<lambda>st. case getitem st env (Sym var) of
                 Some v \<Rightarrow> returns v st
               | None \<Rightarrow> raises (UndefinedSymbol var) st)
     | Lst xs \<Rightarrow>
        (case match_quote xs of Some exp' \<Rightarrow> returns (quoted exp') | None \<Rightarrow>
        (case match_if xs of Some (test, consequence, alternative) \<Rightarrow>
            and_then (evaluate h n test env)
              (\<lambda>v. if truthy h v then evaluate h n consequence env
                   else evaluate h n alternative env) | None \<Rightarrow>
        (case match_define xs of Some (var, value_exp) \<Rightarrow>
            and_then (evaluate h n value_exp env)
              (\<lambda>v st. case setitem st env (Sym var) v of
                        Inl e \<Rightarrow> raises e st
                      | Inr st' \<Rightarrow> returns VNone st') | None \<Rightarrow>
        (case match_set xs of Some (var, value_exp) \<Rightarrow>
            and_then (evaluate h n value_exp env)
              (\<lambda>v st. case change st env var v of
                        Inl e \<Rightarrow> raises e st
                      | Inr st' \<Rightarrow> returns VNone st') | None \<Rightarrow>
        (case match_define_proc xs of Some (name, parms, body) \<Rightarrow>
            (\<lambda>st. case setitem st env (Sym name) (VProc parms body env) of
                    Inl e \<Rightarrow> raises e st
                  | Inr st' \<Rightarrow> returns VNone st') | None \<Rightarrow>
        (case match_lambda xs of Some (parms, body) \<Rightarrow>
            returns (VProc parms body env) | None \<Rightarrow>
        (case match_head ''cond'' xs of Some clauses \<Rightarrow>
            cond_form h (evaluate h n) clauses env | None \<Rightarrow>
        (case match_head ''or'' xs of Some expressions \<Rightarrow>
            or_form h (evaluate h n) expressions env | None \<Rightarrow>
        (case match_head ''and'' xs of Some expressions \<Rightarrow>
            and_form h (evaluate h n) expressions env | None \<Rightarrow>
        (case match_head ''begin'' xs of Some expressions \<Rightarrow>
            and_then (eval_each (evaluate h n) (butlast expressions) env)
              (\<lambda>u. if expressions = [] then raises IndexError
                   else evaluate h n (last expressions) env) | None \<Rightarrow>
        (case match_application xs of Some (op, args) \<Rightarrow>
            and_then (evaluate h n op env)
              (\<lambda>proc. and_then (eval_args (evaluate h n) args env)
                 (\<lambda>values.
                    if TCO_ENABLED \<and> is_Procedure proc then
                      (case proc of VProc parms body definition_env \<Rightarrow>
                         (\<lambda>st. case application_env parms definition_env values st of
                                 Inl e \<Rightarrow> raises e st
                               | Inr (env', st') \<Rightarrow>
                                   evaluate h n (Lst (Sym ''begin'' # body)) env' st')
                       | _ \<Rightarrow> raises TypeError)
                    else try_call h (evaluate h n) proc values)) | None \<Rightarrow>
        raises (InvalidSyntax (lispstr (floats h) exp))))))))))))))"

declare evaluate.simps(2) [simp del]

section \<open>Programs used as examples\<close>

text \<open>
  The forms of the session
  \<^verbatim>\<open>(define x 0)  (define (f) ((lambda () (set! x 1))))  (f)  x\<close>
  as the reader returns them.
\<close>

definition nested_set_program :: "'f exp list" where
  "nested_set_program =
     [Lst [Sym ''define'', Sym ''x'', Num 0],
      Lst [Sym ''define'', Lst [Sym ''f''],
           Lst [Lst [Sym ''lambda'', Lst [], Lst [Sym ''set!'', Sym ''x'', Num 1]]]],
      Lst [Sym ''f''],
      Sym ''x'']"

text \<open>
  The forms of the session
  \<^verbatim>\<open>(define (make-adder n) (lambda (x) (+ x n)))  ((make-adder 3) 4)\<close>
  \<^verbatim>\<open>(define add3 (make-adder 3))  (define add5 (make-adder 5))  (add3 4)  (add5 4)\<close>
  as the reader returns them.
\<close>

definition make_adder_program :: "'f exp list" where
  "make_adder_program =
     [Lst [Sym ''define'', Lst [Sym ''make-adder'', Sym ''n''],
           Lst [Sym ''lambda'', Lst [Sym ''x''], Lst [Sym ''+'', Sym ''x'', Sym ''n'']]],
      Lst [Lst [Sym ''make-adder'', Num 3], Num 4],
      Lst [Sym ''define'', Sym ''add3'', Lst [Sym ''make-adder'', Num 3]],
      Lst [Sym ''define'', Sym ''add5'', Lst [Sym ''make-adder'', Num 5]],
      Lst [Sym ''add3'', Num 4],
      Lst [Sym ''add5'', Num 4]]"

text \<open>
  A host for examples: it has no floats, and each of its callables adds two ints (as
  \<open>op.add\<close>, the \<open>+\<close> of \<open>standard_env\<close>, does) and raises \<open>TypeError\<close> on
  other arguments.
\<close>

definition adding_host :: "unit host" where
  "adding_host =
     \<lparr>floats = \<lparr>py_float = (\<lambda>token. None), str_float = (\<lambda>x. []), bool_float = (\<lambda>x. True)\<rparr>,
      call_builtin = (\<lambda>name values.
         case values of [VInt a, VInt b] \<Rightarrow> Inr (VInt (a + b)) | _ \<Rightarrow> Inl TypeError)\<rparr>"

section \<open>Notions used to state the results\<close>

text \<open>
  The clauses of a \<open>cond\<close>: \<open>is_else_clause\<close> holds of \<open>(else body...)\<close>, and
  \<open>clause_tests\<close> lists the tests of the clauses \<open>(test body...)\<close> in order (a clause
  that is an atom or the empty list has no test; \<open>cond_form\<close> passes over it).
\<close>

fun is_else_clause :: "'f exp \<Rightarrow> bool" where
  "is_else_clause (Lst (test # body)) = (test = Sym ''else'')"
| "is_else_clause _ = False"

fun clause_tests :: "'f exp list \<Rightarrow> 'f exp list" where
  "clause_tests [] = []"
| "clause_tests (Lst (test # body) # clauses) = test # clause_tests clauses"
| "clause_tests (clause # clauses) = clause_tests clauses"

text \<open>
  The shapes of the special forms, by the head of the form and the number and kind of its
  other elements: \<open>(quote x)\<close>, \<open>(if test conseq alt)\<close>, \<open>(define name value-exp)\<close>,
  \<open>(set! name value-exp)\<close>, \<open>(define (name params...) body...+)\<close>,
  \<open>(lambda (params...) body...+)\<close>, and \<open>cond\<close>, \<open>or\<close>, \<open>and\<close>, \<open>begin\<close> with any
  elements.
\<close>

fun is_symbol :: "'f exp \<Rightarrow> bool" where
  "is_symbol (Sym s) = True"
| "is_symbol _ = False"

fun is_list :: "'f exp \<Rightarrow> bool" where
  "is_list (Lst xs) = True"
| "is_list _ = False"

fun is_signature :: "'f exp \<Rightarrow> bool" where
  "is_signature (Lst (Sym name # parms)) = True"
| "is_signature _ = False"

fun special_form :: "'f exp list \<Rightarrow> bool" where
  "special_form [] = False"
| "special_form (head # rest) =
     ((head = Sym ''quote'' \<and> length rest = 1)
      \<or> (head = Sym ''if'' \<and> length rest = 3)
      \<or> (head = Sym ''define'' \<and> length rest = 2 \<and> is_symbol (hd rest))
      \<or> (head = Sym ''set!'' \<and> length rest = 2 \<and> is_symbol (hd rest))
      \<or> (head = Sym ''define'' \<and> length rest \<ge> 2 \<and> is_signature (hd rest))
      \<or> (head = Sym ''lambda'' \<and> length rest \<ge> 2 \<and> is_list (hd rest))
      \<or> head = Sym ''cond'' \<or> head = Sym ''or'' \<or> head = Sym ''and'' \<or> head = Sym ''begin'')"

text \<open>
  Open lists in a sequence of tokens: \<open>closes d tokens\<close> holds when the tokens, read
  from the left with \<open>d\<close> lists open, bring the number of open lists down to zero, and
  \<open>after d tokens\<close> is what is left of the tokens at that point.
\<close>

fun closes :: "nat \<Rightarrow> string list \<Rightarrow> bool" where
  "closes 0 tokens = True"
| "closes (Suc d) [] = False"
| "closes (Suc d) (t # tokens) =
     (if t = ''('' then closes (Suc (Suc d)) tokens
      else if t = '')'' then closes d tokens
      else closes (Suc d) tokens)"

fun after :: "nat \<Rightarrow> string list \<Rightarrow> string list" where
  "after 0 tokens = tokens"
| "after (Suc d) [] = []"
| "after (Suc d) (t # tokens) =
     (if t = ''('' then after (Suc (Suc d)) tokens
      else if t = '')'' then after d tokens
      else after (Suc d) tokens)"

text \<open>
  What the reader does on a sequence of tokens, in terms of \<open>closes\<close> and \<open>after\<close>
  (lemma \<open>reader_ok\<close> shows that it does so whenever the fuel is twice the number of
  tokens and two more): the loop of a list ends in \<open>UnexpectedEndOfSource\<close> unless the
  tokens close the list; \<open>read_from_tokens\<close> fails on no token and on a first token
  \<open>)\<close>, reads a list after \<open>(\<close> and an atom otherwise.
\<close>

definition read_list_ok :: "'f float_ops \<Rightarrow> nat \<Rightarrow> 'f exp list \<Rightarrow> string list \<Rightarrow> bool" where
  "read_list_ok h n acc tokens =
     (if closes 1 tokens
      then (\<exists>es. read_list h n acc tokens = Some (Inr (Lst (acc @ es), after 1 tokens)))
      else read_list h n acc tokens = Some (Inl UnexpectedEndOfSource))"

definition read_ok :: "'f float_ops \<Rightarrow> nat \<Rightarrow> string list \<Rightarrow> bool" where
  "read_ok h n tokens =
     (case tokens of
        [] \<Rightarrow> read_from_tokens h n tokens = Some (Inl UnexpectedEndOfSource)
      | t # ts \<Rightarrow>
          if t = ''('' then
            (if closes 1 ts
             then (\<exists>es. read_from_tokens h n tokens = Some (Inr (Lst es, after 1 ts)))
             else read_from_tokens h n tokens = Some (Inl UnexpectedEndOfSource))
          else if t = '')'' then read_from_tokens h n tokens = Some (Inl UnexpectedCloseParen)
          else read_from_tokens h n tokens = Some (Inr (parse_atom h t, ts)))"

text \<open>
  Notions for the round trip of printing and parsing. A token is a non-empty string without
  whitespace and parentheses. An expression is \<open>canonical\<close> when \<open>parse_atom\<close> reads
  each of its atoms back from what \<open>lispstr\<close> prints for it: every int is; a symbol is when
  it is a token that neither \<open>int\<close> nor \<open>float\<close> accepts; a float is when its \<open>str\<close>
  is a token that \<open>int\<close> rejects and \<open>float\<close> reads back as the same float.
  \<open>tokens_of\<close> lists the tokens of the printed form of an expression, and \<open>spaced\<close> is
  the text \<open>tokenize\<close> splits.
\<close>

definition is_token :: "string \<Rightarrow> bool" where
  "is_token s = (s \<noteq> [] \<and> list_all (\<lambda>c. \<not> isspace c \<and> c \<noteq> CHR ''('' \<and> c \<noteq> CHR '')'') s)"

fun canonical :: "'f float_ops \<Rightarrow> 'f exp \<Rightarrow> bool" where
  "canonical h (Num n) = True"
| "canonical h (Flt x) =
     (is_token (str_float h x) \<and> py_int (str_float h x) = None \<and> py_float h (str_float h x) = Some x)"
| "canonical h (Sym s) = (is_token s \<and> py_int s = None \<and> py_float h s = None)"
| "canonical h (Lst xs) = (\<forall>x \<in> set xs. canonical h x)"

fun tokens_of :: "'f float_ops \<Rightarrow> 'f exp \<Rightarrow> string list" where
  "tokens_of h (Lst xs) = ''('' # concat (map (tokens_of h) xs) @ ['')'']"
| "tokens_of h exp = [lispstr h exp]"

definition spaced :: "string \<Rightarrow> string" where
  "spaced s = replace_char (CHR '')'') '' ) '' (replace_char (CHR ''('') '' ( '' s)"

text \<open>
  Modelled from the spec: \<open>normalize\<close> is no function of the source; the spec says that it
  "collapses whitespace". Here every run of whitespace becomes one space and whitespace at
  the ends goes.
\<close>

definition normalize :: "string \<Rightarrow> string" where
  "normalize s = join (split s)"

text \<open>
  Fuel. \<open>le_comp m m'\<close>: whatever the computation \<open>m\<close> gives without running out of
  fuel, \<open>m'\<close> gives too; \<open>le_ev\<close> is the same for evaluators.
\<close>

definition le_comp :: "('f, 'a) comp \<Rightarrow> ('f, 'a) comp \<Rightarrow> bool" where
  "le_comp m m' = (\<forall>st r. m st = Some r \<longrightarrow> m' st = Some r)"

definition le_ev :: "'f evaluator \<Rightarrow> 'f evaluator \<Rightarrow> bool" where
  "le_ev ev ev' = (\<forall>exp env. le_comp (ev exp env) (ev' exp env))"

section \<open>Results\<close>

subsection \<open>The cases of evaluate, by the head of the form\<close>

lemma match_quote_iff:
  "match_quote xs = (if length xs = 2 \<and> (hd xs = Sym ''quote'' \<or> hd xs = Sym [CHR 0x27]) then Some (xs ! 1) else None)"
  by (cases xs rule: match_quote.cases) auto

lemma match_if_iff:
  "match_if xs = (if length xs = 4 \<and> hd xs = Sym ''if'' then Some (xs ! 1, xs ! 2, xs ! 3) else None)"
  by (cases xs rule: match_if.cases) auto

lemma match_define_head: "head \<noteq> Sym ''define'' \<Longrightarrow> match_define (head # rest) = None"
  by (cases "head # rest" rule: match_define.cases) auto

lemma match_set_head: "head \<noteq> Sym ''set!'' \<Longrightarrow> match_set (head # rest) = None"
  by (cases "head # rest" rule: match_set.cases) auto

lemma match_define_proc_head: "head \<noteq> Sym ''define'' \<Longrightarrow> match_define_proc (head # rest) = None"
  by (cases "head # rest" rule: match_define_proc.cases) auto

lemma match_lambda_head: "head \<noteq> Sym ''lambda'' \<Longrightarrow> match_lambda (head # rest) = None"
  by (cases "head # rest" rule: match_lambda.cases) auto

lemma match_quote_head:
  "head \<noteq> Sym ''quote'' \<Longrightarrow> head \<noteq> Sym [CHR 0x27] \<Longrightarrow> match_quote (head # rest) = None"
  by (simp add: match_quote_iff)

lemma match_if_head: "head \<noteq> Sym ''if'' \<Longrightarrow> match_if (head # rest) = None"
  by (simp add: match_if_iff)

lemmas no_match_other_head = match_quote_head match_if_head match_define_head match_set_head
  match_define_proc_head match_lambda_head

lemma evaluate_cond:
  "evaluate h (Suc n) (Lst (Sym ''cond'' # clauses)) env = cond_form h (evaluate h n) clauses env"
  by (simp add: evaluate.simps no_match_other_head)

lemma evaluate_or:
  "evaluate h (Suc n) (Lst (Sym ''or'' # exps)) env = or_form h (evaluate h n) exps env"
  by (simp add: evaluate.simps no_match_other_head)

lemma evaluate_and:
  "evaluate h (Suc n) (Lst (Sym ''and'' # exps)) env = and_form h (evaluate h n) exps env"
  by (simp add: evaluate.simps no_match_other_head)

lemma evaluate_begin:
  "evaluate h (Suc n) (Lst (Sym ''begin'' # exps)) env =
     and_then (eval_each (evaluate h n) (butlast exps) env)
       (\<lambda>u. if exps = [] then raises IndexError else evaluate h n (last exps) env)"
  by (simp add: evaluate.simps no_match_other_head)

subsection \<open>The empty begin form\<close>

text \<open>
  Claim C10. The form \<open>(begin)\<close> is matched by the case \<open>['begin', *expressions]\<close> with
  an empty list \<open>expressions\<close>: the loop over \<open>expressions[:-1]\<close> does nothing and
  \<open>expressions[-1]\<close> raises the \<open>IndexError\<close> of the host. With any fuel to start, in any
  environment and store, \<open>evaluate\<close> raises \<open>IndexError\<close>, leaves the store as it was and
  does not raise \<open>InvalidSyntax\<close>.
\<close>

theorem begin_empty_raises_IndexError:
  "evaluate h (Suc n) (Lst [Sym ''begin'']) env st = Some (Inl IndexError, st)
   \<and> (\<forall>msg st'. evaluate h (Suc n) (Lst [Sym ''begin'']) env st \<noteq> Some (Inl (InvalidSyntax msg), st'))"
  by (simp add: evaluate.simps and_then_def returns_def raises_def)

subsection \<open>Assignment to an unbound or outer variable\<close>

lemma change_unbound:
  "\<not> contains st env (Sym key) \<Longrightarrow> change st env key v = Inl (KeyError key)"
  by (induction st env key v rule: change.induct) auto

text \<open>
  Claim C1. The form \<open>(set! x 1)\<close> in an environment that binds no \<open>x\<close>: the case
  \<open>['set!', Symbol(var), value_exp]\<close> calls \<open>env.change\<close> outside any \<open>try\<close>, and
  \<open>change\<close> ends in \<open>raise KeyError(key)\<close>, so the exception that leaves
  \<open>evaluate\<close> is \<open>KeyError\<close>, not \<open>UndefinedSymbol\<close> (which the case of a variable
  reference raises from the \<open>KeyError\<close> of the lookup). No binding is made.
  The second equation is the session \<open>nested_set_program\<close> in a fresh global environment:
  the \<open>set!\<close> runs two applications deep, where \<open>change\<close> finds \<open>x\<close> in the
  environment of the outer application (a ChainMap that holds the global one) and assigns with
  \<open>ChainMap.__setitem__\<close>, which writes to the first dict of that ChainMap: the frame of
  the outer application gets a new binding of \<open>x\<close>, and the global \<open>x\<close> is still 0.
\<close>

theorem set_unbound_raises_KeyError:
  "evaluate h (Suc (Suc n)) (Lst [Sym ''set!'', Sym ''x'', Num 1]) [Dict 0] [[]]
     = Some (Inl (KeyError ''x''), [[]])
   \<and> eval_args (evaluate h 6) nested_set_program [Dict 0] [[]]
     = Some (Inr [VNone, VNone, VNone, VInt 0],
         [[(Sym ''x'', VInt 0),
           (Sym ''f'', VProc [] [Lst [Lst [Sym ''lambda'', Lst [], Lst [Sym ''set!'', Sym ''x'', Num 1]]]] [Dict 0])],
          [(Sym ''x'', VInt 1)],
          []])"
  by (simp add: nested_set_program_def evaluate.simps eval_nat_numeral and_then_def returns_def raises_def
      dict_at_def dict_contains_def dict_get_def KEYWORDS_def KEYWORDS_1_def KEYWORDS_2_def
      TCO_ENABLED_def application_env_def dict_of_def new_dict_def)

subsection \<open>The frame of an application\<close>

lemma map_of_dict_set: "map_of (dict_set d k v) = (map_of d)(k \<mapsto> v)"
  by (induction d) (auto simp: fun_eq_iff)

lemma keys_dict_set: "fst ` set (dict_set d k v) = insert k (fst ` set d)"
  by (induction d) auto

lemma distinct_dict_set: "distinct (map fst d) \<Longrightarrow> distinct (map fst (dict_set d k v))"
  by (induction d) (auto simp: keys_dict_set)

lemma length_dict_set: "length (dict_set d k v) \<le> Suc (length d)"
  by (induction d) auto

lemma dict_update_hashable:
  "\<forall>k \<in> fst ` set kvs. hashable k \<Longrightarrow>
   \<exists>d'. dict_update d kvs = Inr d' \<and> map_of d' = map_of d ++ map_of (rev kvs)
        \<and> fst ` set d' = fst ` set d \<union> fst ` set kvs
        \<and> length d' \<le> length d + length kvs \<and> (distinct (map fst d) \<longrightarrow> distinct (map fst d'))"
proof (induction kvs arbitrary: d)
  case Nil
  then show ?case by simp
next
  case (Cons kv kvs)
  obtain k v where kv: "kv = (k, v)" by (cases kv)
  from Cons.prems kv have hk: "hashable k" and rest: "\<forall>k \<in> fst ` set kvs. hashable k" by auto
  from Cons.IH [OF rest, of "dict_set d k v"] obtain d' where
    d': "dict_update (dict_set d k v) kvs = Inr d'"
        "map_of d' = map_of (dict_set d k v) ++ map_of (rev kvs)"
        "fst ` set d' = fst ` set (dict_set d k v) \<union> fst ` set kvs"
        "length d' \<le> length (dict_set d k v) + length kvs"
        "distinct (map fst (dict_set d k v)) \<longrightarrow> distinct (map fst d')"
    by blast
  have "map_of d' = map_of d ++ map_of (rev (kv # kvs))"
    using d'(2) by (simp add: kv map_of_dict_set map_add_def fun_eq_iff split: option.splits)
  moreover have "length d' \<le> length d + length (kv # kvs)"
    using d'(4) length_dict_set [of d k v] by simp
  ultimately show ?case using d' hk kv by (auto simp: keys_dict_set distinct_dict_set)
qed

lemma dict_update_unhashable:
  "\<exists>k \<in> fst ` set kvs. \<not> hashable k \<Longrightarrow> dict_update d kvs = Inl TypeError"
proof (induction kvs arbitrary: d)
  case Nil
  then show ?case by simp
next
  case (Cons kv kvs)
  obtain k v where kv: "kv = (k, v)" by (cases kv)
  show ?case
  proof (cases "hashable k")
    case True
    with Cons.prems kv have "\<exists>k \<in> fst ` set kvs. \<not> hashable k" by auto
    from Cons.IH [OF this] show ?thesis using True kv by simp
  next
    case False
    then show ?thesis using kv by simp
  qed
qed

lemma zip_take_min: "zip (take (min (length xs) (length ys)) xs) (take (min (length xs) (length ys)) ys) = zip xs ys"
  by (simp add: take_zip [symmetric])

lemma fst_set_zip: "fst ` set (zip xs ys) = set (take (length ys) xs)"
proof -
  have "fst ` set (zip xs ys) = set (map fst (zip xs ys))" by simp
  also have "map fst (zip xs ys) = take (length ys) xs"
  proof (induction xs arbitrary: ys)
    case Nil
    then show ?case by simp
  next
    case (Cons x xs)
    then show ?case by (cases ys) auto
  qed
  finally show ?thesis .
qed

lemma map_of_rev_distinct: "distinct (map fst xs) \<Longrightarrow> map_of (rev xs) = map_of xs"
proof (induction xs)
  case Nil
  then show ?case by simp
next
  case (Cons x xs)
  then have "fst x \<notin> fst ` set xs" and IH: "map_of (rev xs) = map_of xs" by auto
  then have "map_of xs (fst x) = None" by (simp add: map_of_eq_None_iff)
  with IH show ?case
    by (cases x) (auto simp: map_add_def fun_eq_iff split: option.splits)
qed

lemma map_of_zip_positional:
  assumes "distinct parms" and "i < length parms" and "i < length args"
  shows "map_of (rev (zip parms args)) (parms ! i) = Some (args ! i)"
proof -
  let ?n = "min (length parms) (length args)"
  have d: "distinct (map fst (zip parms args))"
    using assms(1) by (simp add: map_fst_zip_take)
  have "map_of (rev (zip parms args)) = map_of (zip (take ?n parms) (take ?n args))"
    using map_of_rev_distinct [OF d] by (simp add: zip_take_min)
  moreover have "map_of (zip (take ?n parms) (take ?n args)) (take ?n parms ! i) = Some (take ?n args ! i)"
    using assms by (intro map_of_zip_nth) auto
  ultimately show ?thesis using assms by simp
qed

text \<open>
  Claim C3. \<open>application_env\<close> pairs parameters and arguments by position with \<open>zip\<close>,
  which stops at the end of the shorter list: the result is the one for both lists cut to
  the shorter length, whatever the two lengths are. When the parameters that get an
  argument are hashable (symbols or numbers), the call succeeds with no error: it allocates one
  new dict, in front of the defining environment, whose keys are the parameters that got
  an argument, each bound to the argument at its position (to the last one, if a name is
  repeated).
\<close>

theorem application_env_truncates:
  "application_env parms denv args st =
     application_env (take (min (length parms) (length args)) parms) denv
       (take (min (length parms) (length args)) args) st
   \<and> ((\<forall>p \<in> set (take (length args) parms). hashable p) \<longrightarrow>
        (\<exists>d. application_env parms denv args st = Inr ([Dict (length st), Env denv], st @ [d])
           \<and> fst ` set d = set (take (length args) parms)
           \<and> dict_get d = map_of (rev (zip parms args))
           \<and> (distinct parms \<longrightarrow>
                (\<forall>i < min (length parms) (length args). dict_get d (parms ! i) = Some (args ! i)))))"
proof (intro conjI impI)
  show "application_env parms denv args st =
     application_env (take (min (length parms) (length args)) parms) denv
       (take (min (length parms) (length args)) args) st"
    by (simp only: application_env_def zip_take_min)
next
  assume h: "\<forall>p \<in> set (take (length args) parms). hashable p"
  then have "\<forall>k \<in> fst ` set (zip parms args). hashable k" by (simp add: fst_set_zip)
  from dict_update_hashable [OF this, of "[]"] obtain d where
    d: "dict_of (zip parms args) = Inr d" "map_of d = map_of (rev (zip parms args))"
       "fst ` set d = fst ` set (zip parms args)"
    by (auto simp: dict_of_def)
  have "application_env parms denv args st = Inr ([Dict (length st), Env denv], st @ [d])"
    by (simp add: application_env_def d(1) new_dict_def)
  moreover have "fst ` set d = set (take (length args) parms)"
    using d(3) by (simp add: fst_set_zip)
  moreover have "dict_get d = map_of (rev (zip parms args))"
    using d(2) by (simp add: dict_get_def fun_eq_iff)
  moreover have "distinct parms \<longrightarrow>
      (\<forall>i < min (length parms) (length args). dict_get d (parms ! i) = Some (args ! i))"
    using d(2) by (auto simp: dict_get_def map_of_zip_positional)
  ultimately show "\<exists>d. application_env parms denv args st = Inr ([Dict (length st), Env denv], st @ [d])
           \<and> fst ` set d = set (take (length args) parms)
           \<and> dict_get d = map_of (rev (zip parms args))
           \<and> (distinct parms \<longrightarrow>
                (\<forall>i < min (length parms) (length args). dict_get d (parms ! i) = Some (args ! i)))"
    by blast
qed

theorem application_env_truncates_witness:
  "application_env [Sym ''a'', Sym ''b'', Sym ''c''] [Dict 0] [VInt 1, VInt 2] [[]]
     = Inr ([Dict 1, Env [Dict 0]], [[], [(Sym ''a'', VInt 1), (Sym ''b'', VInt 2)]])
   \<and> application_env [Sym ''a''] [Dict 0] [VInt 1, VInt 2] [[]]
     = Inr ([Dict 1, Env [Dict 0]], [[], [(Sym ''a'', VInt 1)]])"
  using application_env_truncates [of "[Sym ''a'', Sym ''b'', Sym ''c'']" "[Dict 0]" "[VInt 1, VInt 2]" "[[]]"]
  by (simp add: application_env_def dict_of_def new_dict_def)

subsection \<open>Sequences of evaluations\<close>

lemma and_then_Inr:
  "and_then m f st = Some (Inr w, st2) \<longleftrightarrow>
     (\<exists>v st1. m st = Some (Inr v, st1) \<and> f v st1 = Some (Inr w, st2))"
  by (auto simp: and_then_def split: option.splits sum.splits prod.splits)

lemma and_then_Some_Inr: "m st = Some (Inr v, st1) \<Longrightarrow> and_then m f st = f v st1"
  by (simp add: and_then_def)

lemma and_then_Some_Inl: "m st = Some (Inl e, st1) \<Longrightarrow> and_then m f st = Some (Inl e, st1)"
  by (simp add: and_then_def)

lemma and_then_None: "m st = None \<Longrightarrow> and_then m f st = None"
  by (simp add: and_then_def)

lemma eval_args_Cons_Inr:
  "eval_args ev (a # as) env st = Some (Inr vs, st1) \<longleftrightarrow>
     (\<exists>v st' vs'. ev a env st = Some (Inr v, st') \<and> eval_args ev as env st' = Some (Inr vs', st1) \<and> vs = v # vs')"
  by (auto simp: and_then_Inr returns_def)

lemma eval_args_length: "eval_args ev as env st = Some (Inr vs, st1) \<Longrightarrow> length vs = length as"
proof (induction as arbitrary: st vs)
  case Nil
  then show ?case by (simp add: returns_def)
next
  case (Cons a as)
  from Cons.prems obtain v st' vs' where
    "eval_args ev as env st' = Some (Inr vs', st1)" "vs = v # vs'"
    unfolding eval_args_Cons_Inr by blast
  with Cons.IH show ?case by simp
qed

lemma eval_body_last:
  "eval_args ev body env st = Some (Inr ws, st') \<Longrightarrow> body \<noteq> [] \<or> result \<noteq> None \<Longrightarrow>
   eval_body ev body env result st = Some (Inr (if ws = [] then the result else last ws), st')"
proof (induction body arbitrary: result st ws)
  case Nil
  then show ?case by (auto simp: returns_def)
next
  case (Cons a body)
  from Cons.prems(1) obtain v st1 vs' where
    a: "ev a env st = Some (Inr v, st1)" and r: "eval_args ev body env st1 = Some (Inr vs', st')"
    and ws: "ws = v # vs'"
    unfolding eval_args_Cons_Inr by blast
  have "eval_body ev body env (Some v) st1 = Some (Inr (if vs' = [] then the (Some v) else last vs'), st')"
    by (rule Cons.IH [OF r]) simp
  then show ?case using a ws by (simp add: and_then_Some_Inr)
qed


subsection \<open>or, and\<close>

lemma or_loop_falsy_prefix:
  "eval_args ev pre env st = Some (Inr vs, st1) \<Longrightarrow> \<forall>v \<in> set vs. \<not> truthy h v \<Longrightarrow>
   or_loop h ev (pre @ rest) env value st = or_loop h ev rest env (if vs = [] then value else last vs) st1"
proof (induction pre arbitrary: st vs "value")
  case Nil
  then show ?case by (simp add: returns_def)
next
  case (Cons a pre)
  from Cons.prems(1) obtain v st' vs' where
    a: "ev a env st = Some (Inr v, st')" and r: "eval_args ev pre env st' = Some (Inr vs', st1)"
    and vs: "vs = v # vs'"
    unfolding eval_args_Cons_Inr by blast
  from Cons.prems(2) vs have f: "\<not> truthy h v" "\<forall>v \<in> set vs'. \<not> truthy h v" by auto
  from Cons.IH [OF r f(2), of v] a f(1) vs show ?case
    by (simp add: and_then_Some_Inr)
qed

lemma and_loop_truthy_prefix:
  "eval_args ev pre env st = Some (Inr vs, st1) \<Longrightarrow> \<forall>v \<in> set vs. truthy h v \<Longrightarrow>
   and_loop h ev (pre @ rest) env value st = and_loop h ev rest env (if vs = [] then value else last vs) st1"
proof (induction pre arbitrary: st vs "value")
  case Nil
  then show ?case by (simp add: returns_def)
next
  case (Cons a pre)
  from Cons.prems(1) obtain v st' vs' where
    a: "ev a env st = Some (Inr v, st')" and r: "eval_args ev pre env st' = Some (Inr vs', st1)"
    and vs: "vs = v # vs'"
    unfolding eval_args_Cons_Inr by blast
  from Cons.prems(2) vs have f: "truthy h v" "\<forall>v \<in> set vs'. truthy h v" by auto
  from Cons.IH [OF r f(2), of v] a f(1) vs show ?case
    by (simp add: and_then_Some_Inr)
qed


text \<open>
  Claim C5. Let the expressions \<open>pre\<close> evaluate one after the other, each in the store the
  one before left, to the values \<open>vs\<close>, leaving the store \<open>st1\<close>.
  If all of \<open>vs\<close> are falsy, then \<open>(or pre...)\<close> returns the last of them, or \<open>False\<close>
  when there is none; and if the next expression \<open>exp\<close> has a truthy value \<open>v\<close>, then
  \<open>(or pre... exp post...)\<close> returns \<open>v\<close> in the store \<open>exp\<close> left, whatever the later
  expressions \<open>post\<close> are: none of them is evaluated. Dually for \<open>and\<close>, with truthy
  and falsy exchanged and \<open>True\<close> for the empty list.
\<close>

theorem or_and_short_circuit:
  assumes "eval_args (evaluate h n) pre env st = Some (Inr vs, st1)"
  shows "((\<forall>v \<in> set vs. \<not> truthy h v) \<longrightarrow>
            evaluate h (Suc n) (Lst (Sym ''or'' # pre)) env st
              = Some (Inr (if vs = [] then VBool False else last vs), st1)
          \<and> (evaluate h n exp env st1 = Some (Inr v, st2) \<and> truthy h v \<longrightarrow>
               evaluate h (Suc n) (Lst (Sym ''or'' # pre @ exp # post)) env st = Some (Inr v, st2)))
       \<and> ((\<forall>v \<in> set vs. truthy h v) \<longrightarrow>
            evaluate h (Suc n) (Lst (Sym ''and'' # pre)) env st
              = Some (Inr (if vs = [] then VBool True else last vs), st1)
          \<and> (evaluate h n exp env st1 = Some (Inr v, st2) \<and> \<not> truthy h v \<longrightarrow>
               evaluate h (Suc n) (Lst (Sym ''and'' # pre @ exp # post)) env st = Some (Inr v, st2)))"
proof (intro conjI impI)
  assume f: "\<forall>v \<in> set vs. \<not> truthy h v"
  show "evaluate h (Suc n) (Lst (Sym ''or'' # pre)) env st
      = Some (Inr (if vs = [] then VBool False else last vs), st1)"
    using or_loop_falsy_prefix [OF assms f, of "[]" "VBool False"]
    by (simp add: evaluate_or or_form_def returns_def)
  assume "evaluate h n exp env st1 = Some (Inr v, st2) \<and> truthy h v"
  then show "evaluate h (Suc n) (Lst (Sym ''or'' # pre @ exp # post)) env st = Some (Inr v, st2)"
    using or_loop_falsy_prefix [OF assms f, of "exp # post" "VBool False"]
    by (simp add: evaluate_or or_form_def returns_def and_then_Some_Inr)
next
  assume t: "\<forall>v \<in> set vs. truthy h v"
  show "evaluate h (Suc n) (Lst (Sym ''and'' # pre)) env st
      = Some (Inr (if vs = [] then VBool True else last vs), st1)"
    using and_loop_truthy_prefix [OF assms t, of "[]" "VBool True"]
    by (simp add: evaluate_and and_form_def returns_def)
  assume "evaluate h n exp env st1 = Some (Inr v, st2) \<and> \<not> truthy h v"
  then show "evaluate h (Suc n) (Lst (Sym ''and'' # pre @ exp # post)) env st = Some (Inr v, st2)"
    using and_loop_truthy_prefix [OF assms t, of "exp # post" "VBool True"]
    by (simp add: evaluate_and and_form_def returns_def and_then_Some_Inr)
qed


theorem or_and_short_circuit_witness:
  "\<forall>h :: 'f host. \<forall>n.
     evaluate h (Suc (Suc n)) (Lst [Sym ''or'', Num 0, Num 5, Sym ''unbound'']) [Dict 0] [[]]
       = Some (Inr (VInt 5), [[]])
     \<and> evaluate h (Suc (Suc n)) (Lst [Sym ''and'', Num 5, Num 0, Sym ''unbound'']) [Dict 0] [[]]
       = Some (Inr (VInt 0), [[]])
     \<and> evaluate h (Suc (Suc n)) (Lst [Sym ''or'', Num 0]) [Dict 0] [[]] = Some (Inr (VInt 0), [[]])
     \<and> evaluate h (Suc (Suc n)) (Lst [Sym ''and'', Num 5]) [Dict 0] [[]] = Some (Inr (VInt 5), [[]])"
proof (intro allI)
  fix h :: "'f host" and n
  have zero: "eval_args (evaluate h (Suc n)) [Num 0] [Dict 0] [[]] = Some (Inr [VInt 0], [[]])"
    by (simp add: evaluate.simps and_then_def returns_def)
  have five: "eval_args (evaluate h (Suc n)) [Num 5] [Dict 0] [[]] = Some (Inr [VInt 5], [[]])"
    by (simp add: evaluate.simps and_then_def returns_def)
  have e5: "evaluate h (Suc n) (Num 5) [Dict 0] [[]] = Some (Inr (VInt 5), [[]])"
    and e0: "evaluate h (Suc n) (Num 0) [Dict 0] [[]] = Some (Inr (VInt 0), [[]])"
    by (simp_all add: evaluate.simps returns_def)
  from or_and_short_circuit [OF zero, of "Num 5" "VInt 5" "[[]]" "[Sym ''unbound'']"]
    or_and_short_circuit [OF five, of "Num 0" "VInt 0" "[[]]" "[Sym ''unbound'']"] e5 e0
  show "evaluate h (Suc (Suc n)) (Lst [Sym ''or'', Num 0, Num 5, Sym ''unbound'']) [Dict 0] [[]]
       = Some (Inr (VInt 5), [[]])
     \<and> evaluate h (Suc (Suc n)) (Lst [Sym ''and'', Num 5, Num 0, Sym ''unbound'']) [Dict 0] [[]]
       = Some (Inr (VInt 0), [[]])
     \<and> evaluate h (Suc (Suc n)) (Lst [Sym ''or'', Num 0]) [Dict 0] [[]] = Some (Inr (VInt 0), [[]])
     \<and> evaluate h (Suc (Suc n)) (Lst [Sym ''and'', Num 5]) [Dict 0] [[]] = Some (Inr (VInt 5), [[]])"
    by simp
qed

subsection \<open>cond\<close>

lemma cond_form_skip:
  "eval_args ev (clause_tests pre) env st = Some (Inr vs, st1) \<Longrightarrow>
   \<forall>v \<in> set vs. \<not> truthy h v \<Longrightarrow> \<forall>c \<in> set pre. \<not> is_else_clause c \<Longrightarrow>
   cond_form h ev (pre @ rest) env st = cond_form h ev rest env st1"
proof (induction pre arbitrary: st vs)
  case Nil
  then show ?case by (simp add: returns_def)
next
  case (Cons c pre)
  from Cons.prems(3) have ne: "\<not> is_else_clause c" and nes: "\<forall>c \<in> set pre. \<not> is_else_clause c"
    by auto
  show ?case
  proof (cases "\<exists>test body. c = Lst (test # body)")
    case True
    then obtain test body where c: "c = Lst (test # body)" by blast
    with ne have t: "test \<noteq> Sym ''else''" by simp
    from Cons.prems(1) c have "eval_args ev (test # clause_tests pre) env st = Some (Inr vs, st1)"
      by simp
    then obtain v st' vs' where
      a: "ev test env st = Some (Inr v, st')"
      and r: "eval_args ev (clause_tests pre) env st' = Some (Inr vs', st1)"
      and vs: "vs = v # vs'"
      unfolding eval_args_Cons_Inr by blast
    from Cons.prems(2) vs have f: "\<not> truthy h v" "\<forall>v \<in> set vs'. \<not> truthy h v" by auto
    from Cons.IH [OF r f(2) nes] a f(1) t c show ?thesis
      by (simp add: and_then_Some_Inr)
  next
    case False
    then have ct: "clause_tests (c # pre) = clause_tests pre"
      by (cases c rule: is_else_clause.cases) auto
    from False have cf: "cond_form h ev (c # pre @ rest) env st = cond_form h ev (pre @ rest) env st"
      by (cases c rule: is_else_clause.cases) auto
    from Cons.IH [OF _ Cons.prems(2) nes] Cons.prems(1) ct cf show ?thesis
      by simp
  qed
qed


text \<open>
  Claim C8. Let \<open>pre\<close> be clauses none of which is an \<open>else\<close> clause and whose tests,
  evaluated in order, all give falsy values, leaving the store \<open>st1\<close>. Then
  \<open>(cond pre...)\<close>, where no clause matches, returns \<open>None\<close>, the "no value" of the
  interpreter, which is not the value \<open>False\<close>. If the next clause is \<open>(else body...)\<close>,
  or \<open>(test body...)\<close> with a test that evaluates truthy, and its body is not empty, then
  \<open>cond\<close> evaluates the expressions of that body in order and returns the value of the last
  one, whatever the later clauses \<open>post\<close> are.
\<close>

theorem cond_first_match:
  assumes "eval_args (evaluate h n) (clause_tests pre) env st = Some (Inr vs, st1)"
    and "\<forall>v \<in> set vs. \<not> truthy h v"
    and "\<forall>c \<in> set pre. \<not> is_else_clause c"
  shows "evaluate h (Suc n) (Lst (Sym ''cond'' # pre)) env st = Some (Inr VNone, st1)
       \<and> VNone \<noteq> VBool False
       \<and> (body \<noteq> [] \<and> eval_args (evaluate h n) body env st1 = Some (Inr ws, st2) \<longrightarrow>
            evaluate h (Suc n) (Lst (Sym ''cond'' # pre @ Lst (Sym ''else'' # body) # post)) env st
              = Some (Inr (last ws), st2))
       \<and> (test \<noteq> Sym ''else'' \<and> evaluate h n test env st1 = Some (Inr v, st1') \<and> truthy h v
            \<and> body \<noteq> [] \<and> eval_args (evaluate h n) body env st1' = Some (Inr ws, st2) \<longrightarrow>
            evaluate h (Suc n) (Lst (Sym ''cond'' # pre @ Lst (test # body) # post)) env st
              = Some (Inr (last ws), st2))"
proof (intro conjI impI)
  show "evaluate h (Suc n) (Lst (Sym ''cond'' # pre)) env st = Some (Inr VNone, st1)"
    using cond_form_skip [OF assms, of "[]"] by (simp add: evaluate_cond returns_def)
  show "VNone \<noteq> VBool False" by simp
next
  assume a: "body \<noteq> [] \<and> eval_args (evaluate h n) body env st1 = Some (Inr ws, st2)"
  then have "eval_body (evaluate h n) body env None st1 = Some (Inr (last ws), st2)"
    using eval_body_last [of "evaluate h n" body env st1 ws st2 None]
      eval_args_length [of "evaluate h n" body env st1 ws st2] by auto
  then show "evaluate h (Suc n) (Lst (Sym ''cond'' # pre @ Lst (Sym ''else'' # body) # post)) env st
      = Some (Inr (last ws), st2)"
    using cond_form_skip [OF assms, of "Lst (Sym ''else'' # body) # post"]
    by (simp add: evaluate_cond)
next
  assume a: "test \<noteq> Sym ''else'' \<and> evaluate h n test env st1 = Some (Inr v, st1') \<and> truthy h v
            \<and> body \<noteq> [] \<and> eval_args (evaluate h n) body env st1' = Some (Inr ws, st2)"
  then have "eval_body (evaluate h n) body env None st1' = Some (Inr (last ws), st2)"
    using eval_body_last [of "evaluate h n" body env st1' ws st2 None]
      eval_args_length [of "evaluate h n" body env st1' ws st2] by auto
  with a show "evaluate h (Suc n) (Lst (Sym ''cond'' # pre @ Lst (test # body) # post)) env st
      = Some (Inr (last ws), st2)"
    using cond_form_skip [OF assms, of "Lst (test # body) # post"]
    by (simp add: evaluate_cond and_then_Some_Inr)
qed

theorem cond_first_match_witness:
  "\<forall>h :: 'f host. \<forall>n.
     evaluate h (Suc (Suc n)) (Lst [Sym ''cond'', Lst [Num 0, Num 1]]) [Dict 0] [[]]
       = Some (Inr VNone, [[]])
     \<and> evaluate h (Suc (Suc n))
         (Lst [Sym ''cond'', Lst [Num 0, Num 1], Lst [Sym ''else'', Num 2, Num 3], Lst [Num 4, Num 5]])
         [Dict 0] [[]]
       = Some (Inr (VInt 3), [[]])
     \<and> evaluate h (Suc (Suc n))
         (Lst [Sym ''cond'', Lst [Num 0, Num 1], Lst [Num 7, Num 2, Num 3], Lst [Sym ''else'', Num 5]])
         [Dict 0] [[]]
       = Some (Inr (VInt 3), [[]])"
proof (intro allI)
  fix h :: "'f host" and n
  have pre: "eval_args (evaluate h (Suc n)) (clause_tests [Lst [Num 0, Num 1]]) [Dict 0] [[]]
      = Some (Inr [VInt 0], [[]])"
    by (simp add: evaluate.simps and_then_def returns_def)
  have f: "\<forall>v \<in> set [VInt 0 :: 'f val]. \<not> truthy h v" by simp
  have ne: "\<forall>c \<in> set [Lst [Num 0, Num 1 :: 'f exp]]. \<not> is_else_clause c" by simp
  have body: "eval_args (evaluate h (Suc n)) [Num 2, Num 3] [Dict 0] [[]] = Some (Inr [VInt 2, VInt 3], [[]])"
    by (simp add: evaluate.simps and_then_def returns_def)
  have t: "evaluate h (Suc n) (Num 7) [Dict 0] [[]] = Some (Inr (VInt 7), [[]])"
    by (simp add: evaluate.simps returns_def)
  from cond_first_match [OF pre f ne, of "[Num 2, Num 3]" "[VInt 2, VInt 3]" "[[]]" "[Lst [Num 4, Num 5]]"
        "Num 7" "VInt 7" "[[]]"]
    cond_first_match [OF pre f ne, of "[Num 2, Num 3]" "[VInt 2, VInt 3]" "[[]]" "[Lst [Sym ''else'', Num 5]]"
        "Num 7" "VInt 7" "[[]]"] body t
  show "evaluate h (Suc (Suc n)) (Lst [Sym ''cond'', Lst [Num 0, Num 1]]) [Dict 0] [[]]
       = Some (Inr VNone, [[]])
     \<and> evaluate h (Suc (Suc n))
         (Lst [Sym ''cond'', Lst [Num 0, Num 1], Lst [Sym ''else'', Num 2, Num 3], Lst [Num 4, Num 5]])
         [Dict 0] [[]]
       = Some (Inr (VInt 3), [[]])
     \<and> evaluate h (Suc (Suc n))
         (Lst [Sym ''cond'', Lst [Num 0, Num 1], Lst [Num 7, Num 2, Num 3], Lst [Sym ''else'', Num 5]])
         [Dict 0] [[]]
       = Some (Inr (VInt 3), [[]])"
    by simp
qed

subsection \<open>Keywords with a wrong shape\<close>

lemma match_define_shape:
  "\<not> (length rest = 2 \<and> is_symbol (hd rest)) \<Longrightarrow> match_define (head # rest) = None"
  by (cases "head # rest" rule: match_define.cases) auto

lemma match_set_shape:
  "\<not> (length rest = 2 \<and> is_symbol (hd rest)) \<Longrightarrow> match_set (head # rest) = None"
  by (cases "head # rest" rule: match_set.cases) auto

lemma match_define_proc_shape:
  "\<not> (length rest \<ge> 2 \<and> is_signature (hd rest)) \<Longrightarrow> match_define_proc (head # rest) = None"
  by (cases "head # rest" rule: match_define_proc.cases) (auto simp: Suc_le_eq)

lemma match_lambda_shape:
  "\<not> (length rest \<ge> 2 \<and> is_list (hd rest)) \<Longrightarrow> match_lambda (head # rest) = None"
  by (cases "head # rest" rule: match_lambda.cases) (auto simp: Suc_le_eq)

lemma match_application_keyword:
  "k \<in> set KEYWORDS \<Longrightarrow> match_application (Sym k # args) = None"
  by simp

lemma evaluate_no_match:
  assumes "match_quote xs = None" "match_if xs = None" "match_define xs = None"
    "match_set xs = None" "match_define_proc xs = None" "match_lambda xs = None"
    "match_head ''cond'' xs = None" "match_head ''or'' xs = None" "match_head ''and'' xs = None"
    "match_head ''begin'' xs = None" "match_application xs = None"
  shows "evaluate h (Suc n) (Lst xs) env st = Some (Inl (InvalidSyntax (lispstr (floats h) (Lst xs))), st)"
  using assms by (simp add: evaluate.simps raises_def)



lemma match_application_head:
  "head \<in> Sym ` set KEYWORDS \<Longrightarrow> match_application (head # rest) = None"
  by simp

lemma quote_mark_no_keyword: "Sym [CHR 0x27] \<notin> Sym ` set KEYWORDS"
  by (simp add: KEYWORDS_def KEYWORDS_1_def KEYWORDS_2_def)

lemma not_special_form:
  assumes "\<not> special_form (head # rest)"
  shows
    "\<not> (head = Sym ''quote'' \<and> length rest = 1)"
    "\<not> (head = Sym ''if'' \<and> length rest = 3)"
    "\<not> (head = Sym ''define'' \<and> length rest = 2 \<and> is_symbol (hd rest))"
    "\<not> (head = Sym ''set!'' \<and> length rest = 2 \<and> is_symbol (hd rest))"
    "\<not> (head = Sym ''define'' \<and> length rest \<ge> 2 \<and> is_signature (hd rest))"
    "\<not> (head = Sym ''lambda'' \<and> length rest \<ge> 2 \<and> is_list (hd rest))"
    "head \<noteq> Sym ''cond''" "head \<noteq> Sym ''or''" "head \<noteq> Sym ''and''" "head \<noteq> Sym ''begin''"
  using assms by simp_all

text \<open>
  Claim C6. A form that is the empty list, or whose head is one of the reserved keywords
  (\<open>quote\<close>, \<open>if\<close>, \<open>define\<close>, \<open>lambda\<close>, \<open>set!\<close>, \<open>cond\<close>, \<open>or\<close>, \<open>and\<close>,
  \<open>begin\<close>), and that has the shape of no special form, raises \<open>InvalidSyntax\<close> with
  its rendering, in every environment and store and with the store unchanged: it is never an
  application, since the case of an application does not match it. The witness has the
  instances \<open>(if 1 2)\<close>, a \<open>lambda\<close> and a sugared \<open>define\<close> with an empty body, and \<open>()\<close>.
  (Every form with head \<open>cond\<close>, \<open>or\<close>, \<open>and\<close> or \<open>begin\<close> has the shape of its
  special form, \<open>(begin)\<close> included.)
\<close>

theorem keyword_wrong_shape_InvalidSyntax:
  assumes "xs = [] \<or> hd xs \<in> Sym ` set KEYWORDS" and "\<not> special_form xs"
  shows "evaluate h (Suc n) (Lst xs) env st
           = Some (Inl (InvalidSyntax (lispstr (floats h) (Lst xs))), st)
         \<and> match_application xs = None"
proof (cases xs)
  case Nil
  then show ?thesis by (simp add: evaluate.simps raises_def)
next
  case (Cons head rest)
  with assms(1) have kw: "head \<in> Sym ` set KEYWORDS" by simp
  have app: "match_application xs = None"
    unfolding Cons using kw by (rule match_application_head)
  from assms(2) have "\<not> special_form (head # rest)" unfolding Cons .
  note nsf = not_special_form [OF this]
  have heads: "match_head ''cond'' xs = None" "match_head ''or'' xs = None"
    "match_head ''and'' xs = None" "match_head ''begin'' xs = None"
    unfolding Cons using nsf(7-10) by simp_all
  have nq: "head \<noteq> Sym [CHR 0x27]"
  proof
    assume e: "head = Sym [CHR 0x27]"
    from quote_mark_no_keyword kw [unfolded e] show False by (rule notE)
  qed
  have q: "match_quote xs = None"
  proof (cases "head = Sym ''quote''")
    case True
    with nsf(1) have "length rest \<noteq> 1" by simp
    then show ?thesis unfolding Cons by (simp add: match_quote_iff)
  next
    case False
    from False nq show ?thesis unfolding Cons by (rule match_quote_head)
  qed
  have i: "match_if xs = None"
  proof (cases "head = Sym ''if''")
    case True
    with nsf(2) have "length rest \<noteq> 3" by simp
    then show ?thesis unfolding Cons by (simp add: match_if_iff)
  next
    case False
    then show ?thesis unfolding Cons by (rule match_if_head)
  qed
  have d: "match_define xs = None"
  proof (cases "head = Sym ''define''")
    case True
    with nsf(3) have "\<not> (length rest = 2 \<and> is_symbol (hd rest))" by simp
    then show ?thesis unfolding Cons by (rule match_define_shape)
  next
    case False
    then show ?thesis unfolding Cons by (rule match_define_head)
  qed
  have s: "match_set xs = None"
  proof (cases "head = Sym ''set!''")
    case True
    with nsf(4) have "\<not> (length rest = 2 \<and> is_symbol (hd rest))" by simp
    then show ?thesis unfolding Cons by (rule match_set_shape)
  next
    case False
    then show ?thesis unfolding Cons by (rule match_set_head)
  qed
  have dp: "match_define_proc xs = None"
  proof (cases "head = Sym ''define''")
    case True
    with nsf(5) have "\<not> (length rest \<ge> 2 \<and> is_signature (hd rest))" by simp
    then show ?thesis unfolding Cons by (rule match_define_proc_shape)
  next
    case False
    then show ?thesis unfolding Cons by (rule match_define_proc_head)
  qed
  have l: "match_lambda xs = None"
  proof (cases "head = Sym ''lambda''")
    case True
    with nsf(6) have "\<not> (length rest \<ge> 2 \<and> is_list (hd rest))" by simp
    then show ?thesis unfolding Cons by (rule match_lambda_shape)
  next
    case False
    then show ?thesis unfolding Cons by (rule match_lambda_head)
  qed
  from evaluate_no_match [OF q i d s dp l heads app] app show ?thesis by simp
qed

theorem keyword_wrong_shape_InvalidSyntax_witness:
  "\<forall>h :: 'f host. \<forall>n env st.
     evaluate h (Suc n) (Lst [Sym ''if'', Num 1, Num 2]) env st
       = Some (Inl (InvalidSyntax ''(if 1 2)''), st)
     \<and> evaluate h (Suc n) (Lst [Sym ''lambda'', Lst [Sym ''x'']]) env st
       = Some (Inl (InvalidSyntax ''(lambda (x))''), st)
     \<and> evaluate h (Suc n) (Lst [Sym ''define'', Lst [Sym ''f'', Sym ''x'']]) env st
       = Some (Inl (InvalidSyntax ''(define (f x))''), st)
     \<and> evaluate h (Suc n) (Lst []) env st = Some (Inl (InvalidSyntax ''()''), st)"
proof (intro allI)
  fix h :: "'f host" and n env st
  have kw: "Sym ''if'' \<in> (Sym ` set KEYWORDS :: 'f exp set)"
    "Sym ''lambda'' \<in> (Sym ` set KEYWORDS :: 'f exp set)"
    "Sym ''define'' \<in> (Sym ` set KEYWORDS :: 'f exp set)"
    by (simp_all add: KEYWORDS_def KEYWORDS_1_def KEYWORDS_2_def)
  have one_two: "str_int 1 = ''1''" "str_int 2 = ''2''"
    by code_simp+
  from keyword_wrong_shape_InvalidSyntax [of "[Sym ''if'', Num 1, Num 2]" h n env st]
    keyword_wrong_shape_InvalidSyntax [of "[Sym ''lambda'', Lst [Sym ''x'']]" h n env st]
    keyword_wrong_shape_InvalidSyntax [of "[Sym ''define'', Lst [Sym ''f'', Sym ''x'']]" h n env st]
    keyword_wrong_shape_InvalidSyntax [of "[]" h n env st] kw one_two
  show "evaluate h (Suc n) (Lst [Sym ''if'', Num 1, Num 2]) env st
       = Some (Inl (InvalidSyntax ''(if 1 2)''), st)
     \<and> evaluate h (Suc n) (Lst [Sym ''lambda'', Lst [Sym ''x'']]) env st
       = Some (Inl (InvalidSyntax ''(lambda (x))''), st)
     \<and> evaluate h (Suc n) (Lst [Sym ''define'', Lst [Sym ''f'', Sym ''x'']]) env st
       = Some (Inl (InvalidSyntax ''(define (f x))''), st)
     \<and> evaluate h (Suc n) (Lst []) env st = Some (Inl (InvalidSyntax ''()''), st)"
    by simp
qed

subsection \<open>Fuel\<close>

text \<open>
  More fuel changes no outcome: an evaluation that ends with some fuel ends in the same value
  or exception and the same store with any greater fuel.
\<close>

lemma le_comp_refl: "le_comp m m"
  by (simp add: le_comp_def)

lemma le_evD: "le_ev ev ev' \<Longrightarrow> le_comp (ev exp env) (ev' exp env)"
  by (simp add: le_ev_def)

lemma and_then_le:
  assumes "le_comp m m'" and "\<And>v. le_comp (f v) (f' v)"
  shows "le_comp (and_then m f) (and_then m' f')"
  unfolding le_comp_def
proof (intro allI impI)
  fix st r
  assume a: "and_then m f st = Some r"
  show "and_then m' f' st = Some r"
  proof (cases "m st")
    case None
    with a show ?thesis by (simp add: and_then_def)
  next
    case (Some x)
    with assms(1) have m': "m' st = Some x" unfolding le_comp_def by blast
    obtain y st' where x: "x = (y, st')" by (cases x)
    show ?thesis
    proof (cases y)
      case (Inl e)
      with a Some x m' show ?thesis by (simp add: and_then_def)
    next
      case (Inr v)
      with a Some x have "f v st' = Some r" by (simp add: and_then_def)
      with assms(2) [of v] have "f' v st' = Some r" unfolding le_comp_def by blast
      with Inr m' x show ?thesis by (simp add: and_then_def)
    qed
  qed
qed

lemma eval_body_le: "le_ev ev ev' \<Longrightarrow> le_comp (eval_body ev body env result) (eval_body ev' body env result)"
proof (induction body arbitrary: result)
  case Nil
  then show ?case by (simp add: le_comp_refl)
next
  case (Cons a body)
  show ?case unfolding eval_body.simps
    by (rule and_then_le) (simp_all add: le_evD [OF Cons.prems] Cons.IH [OF Cons.prems])
qed

lemma eval_args_le: "le_ev ev ev' \<Longrightarrow> le_comp (eval_args ev args env) (eval_args ev' args env)"
proof (induction args)
  case Nil
  then show ?case by (simp add: le_comp_refl)
next
  case (Cons a args)
  show ?case unfolding eval_args.simps
    by (intro and_then_le le_evD [OF Cons.prems] Cons.IH [OF Cons.prems] le_comp_refl)
qed

lemma eval_each_le: "le_ev ev ev' \<Longrightarrow> le_comp (eval_each ev exps env) (eval_each ev' exps env)"
proof (induction exps)
  case Nil
  then show ?case by (simp add: le_comp_refl)
next
  case (Cons a exps)
  show ?case unfolding eval_each.simps
    by (intro and_then_le le_evD [OF Cons.prems] Cons.IH [OF Cons.prems])
qed

lemma if_le: "le_comp a a' \<Longrightarrow> le_comp b b' \<Longrightarrow> le_comp (if c then a else b) (if c then a' else b')"
  by simp

lemma or_loop_le: "le_ev ev ev' \<Longrightarrow> le_comp (or_loop h ev exps env v) (or_loop h ev' exps env v)"
proof (induction exps arbitrary: v)
  case Nil
  then show ?case by (simp add: le_comp_refl)
next
  case (Cons a exps)
  show ?case unfolding or_loop.simps
    by (intro and_then_le if_le le_evD [OF Cons.prems] Cons.IH [OF Cons.prems] le_comp_refl)
qed

lemma and_loop_le: "le_ev ev ev' \<Longrightarrow> le_comp (and_loop h ev exps env v) (and_loop h ev' exps env v)"
proof (induction exps arbitrary: v)
  case Nil
  then show ?case by (simp add: le_comp_refl)
next
  case (Cons a exps)
  show ?case unfolding and_loop.simps
    by (intro and_then_le if_le le_evD [OF Cons.prems] Cons.IH [OF Cons.prems] le_comp_refl)
qed

lemma cond_form_le: "le_ev ev ev' \<Longrightarrow> le_comp (cond_form h ev clauses env) (cond_form h ev' clauses env)"
proof (induction clauses)
  case Nil
  then show ?case by (simp add: le_comp_refl)
next
  case (Cons c clauses)
  note IH = Cons.IH [OF Cons.prems]
  show ?case
  proof (cases c)
    case (Lst xs)
    show ?thesis
    proof (cases xs)
      case Nil
      with Lst IH show ?thesis by simp
    next
      case (Cons test body)
      show ?thesis unfolding Lst Cons cond_form.simps exp.case list.case
        by (intro and_then_le if_le le_evD [OF Cons.prems] IH eval_body_le [OF Cons.prems])
    qed
  qed (simp_all add: IH)
qed

lemma Procedure_call_le:
  "le_ev ev ev' \<Longrightarrow> le_comp (Procedure_call ev parms body denv args) (Procedure_call ev' parms body denv args)"
  unfolding le_comp_def Procedure_call_def
  using eval_body_le [of ev ev' body _ None]
  by (auto simp: le_comp_def split: sum.splits)

lemma call_value_le:
  "le_ev ev ev' \<Longrightarrow> le_comp (call_value h ev proc args) (call_value h ev' proc args)"
  by (cases proc) (simp_all add: le_comp_refl Procedure_call_le)

lemma try_call_le:
  "le_ev ev ev' \<Longrightarrow> le_comp (try_call h ev proc args) (try_call h ev' proc args)"
  using call_value_le [of ev ev' h proc args]
  by (auto simp: le_comp_def try_call_def split: option.splits)


lemma trampoline_le:
  assumes "le_ev ev ev'"
  shows "le_comp (\<lambda>st. case application_env parms denv values st of
                        Inl e \<Rightarrow> raises e st
                      | Inr (env', st') \<Rightarrow> ev exp env' st')
                 (\<lambda>st. case application_env parms denv values st of
                        Inl e \<Rightarrow> raises e st
                      | Inr (env', st') \<Rightarrow> ev' exp env' st')"
  using assms by (auto simp: le_comp_def le_ev_def split: sum.splits)

lemma le_compD: "le_comp m m' \<Longrightarrow> m st = Some r \<Longrightarrow> m' st = Some r"
  unfolding le_comp_def by blast

lemma case_option_le:
  "(m = None \<Longrightarrow> le_comp a a') \<Longrightarrow> (\<And>x. m = Some x \<Longrightarrow> le_comp (f x) (f' x)) \<Longrightarrow>
   le_comp (case m of None \<Rightarrow> a | Some x \<Rightarrow> f x) (case m of None \<Rightarrow> a' | Some x \<Rightarrow> f' x)"
  by (cases m) simp_all

lemma case_prod_le:
  "(\<And>a b. le_comp (f a b) (f' a b)) \<Longrightarrow>
   le_comp (case p of (a, b) \<Rightarrow> f a b) (case p of (a, b) \<Rightarrow> f' a b)"
  by (cases p) simp

lemma application_le:
  assumes "le_ev ev ev'"
  shows "le_comp
     (if TCO_ENABLED \<and> is_Procedure proc then
        (case proc of VProc parms body definition_env \<Rightarrow>
           (\<lambda>st. case application_env parms definition_env values st of
                   Inl e \<Rightarrow> raises e st
                 | Inr (env', st') \<Rightarrow> ev (Lst (Sym ''begin'' # body)) env' st')
         | _ \<Rightarrow> raises TypeError)
      else try_call h ev proc values)
     (if TCO_ENABLED \<and> is_Procedure proc then
        (case proc of VProc parms body definition_env \<Rightarrow>
           (\<lambda>st. case application_env parms definition_env values st of
                   Inl e \<Rightarrow> raises e st
                 | Inr (env', st') \<Rightarrow> ev' (Lst (Sym ''begin'' # body)) env' st')
         | _ \<Rightarrow> raises TypeError)
      else try_call h ev' proc values)"
proof (cases "is_Procedure proc")
  case True
  then obtain parms body denv where "proc = VProc parms body denv" by (cases proc) simp_all
  with trampoline_le [OF assms] show ?thesis by (simp add: TCO_ENABLED_def)
next
  case False
  with try_call_le [OF assms] show ?thesis by (simp add: TCO_ENABLED_def)
qed

lemma evaluate_Suc_le:
  assumes "le_ev (evaluate h n) (evaluate h m)"
  shows "le_comp (evaluate h (Suc n) exp env) (evaluate h (Suc m) exp env)"
proof (cases exp)
  case (Lst xs)
  note ev = le_evD [OF assms]
  show ?thesis
    unfolding Lst evaluate.simps exp.case or_form_def and_form_def
    by (intro le_comp_refl case_option_le case_prod_le and_then_le if_le ev
          cond_form_le [OF assms] or_loop_le [OF assms] and_loop_le [OF assms]
          eval_each_le [OF assms] eval_args_le [OF assms] application_le [OF assms])
qed (simp_all add: evaluate.simps le_comp_refl)

lemma evaluate_fuel_step: "le_ev (evaluate h n) (evaluate h (Suc n))"
proof (induction n)
  case 0
  show ?case by (simp add: le_ev_def le_comp_def)
next
  case (Suc n)
  show ?case unfolding le_ev_def
    by (intro allI evaluate_Suc_le [OF Suc])
qed

lemma evaluate_fuel_mono:
  "evaluate h n exp env st = Some r \<Longrightarrow> evaluate h (n + k) exp env st = Some r"
proof (induction k)
  case 0
  then show ?case by simp
next
  case (Suc k)
  then have "evaluate h (n + k) exp env st = Some r" by simp
  with le_evD [OF evaluate_fuel_step, of h "n + k" exp env]
  have "evaluate h (Suc (n + k)) exp env st = Some r" by (rule le_compD)
  then show ?case by simp
qed

lemma evaluate_deterministic:
  assumes "evaluate h n exp env st = Some r" and "evaluate h m exp env st = Some r'"
  shows "r = r'"
proof -
  from evaluate_fuel_mono [OF assms(1), of m] evaluate_fuel_mono [OF assms(2), of n]
  show ?thesis by (simp add: add.commute)
qed


lemma le_ev_fuel: "le_ev (evaluate h n) (evaluate h (n + k))"
  unfolding le_ev_def le_comp_def using evaluate_fuel_mono by blast

subsection \<open>The trampoline\<close>

lemma and_then_returns: "and_then m returns = m"
  by (auto simp: and_then_def returns_def fun_eq_iff split: option.splits sum.splits prod.splits)

lemma returns_and_then: "and_then (returns v) f = f v"
  by (simp add: and_then_def returns_def fun_eq_iff)

lemma and_then_assoc: "and_then (and_then m f) g = and_then m (\<lambda>v. and_then (f v) g)"
  by (auto simp: and_then_def fun_eq_iff split: option.splits sum.splits prod.splits)

lemma eval_body_butlast_last:
  "body \<noteq> [] \<Longrightarrow>
   eval_body ev body env result = and_then (eval_each ev (butlast body) env) (\<lambda>u. ev (last body) env)"
proof (induction body arbitrary: result)
  case Nil
  then show ?case by simp
next
  case (Cons a body)
  show ?case
  proof (cases "body = []")
    case True
    have "(\<lambda>v. eval_body ev [] env (Some v)) = returns" by (simp add: fun_eq_iff)
    then show ?thesis using True by (simp add: and_then_returns returns_and_then)
  next
    case False
    from Cons.IH [OF False] show ?thesis using False by (simp add: and_then_assoc)
  qed
qed

lemma keyword_heads:
  assumes "op \<notin> Sym ` set KEYWORDS"
  shows "op \<noteq> Sym ''quote''" "op \<noteq> Sym ''if''" "op \<noteq> Sym ''define''" "op \<noteq> Sym ''lambda''"
    "op \<noteq> Sym ''set!''" "op \<noteq> Sym ''cond''" "op \<noteq> Sym ''or''" "op \<noteq> Sym ''and''"
    "op \<noteq> Sym ''begin''"
  using assms by (simp_all add: KEYWORDS_def KEYWORDS_1_def KEYWORDS_2_def image_iff)

lemma evaluate_application:
  assumes "op \<notin> Sym ` set KEYWORDS" and "op \<noteq> Sym [CHR 0x27] \<or> length args \<noteq> 1"
  shows "evaluate h (Suc n) (Lst (op # args)) env =
     and_then (evaluate h n op env)
       (\<lambda>proc. and_then (eval_args (evaluate h n) args env)
          (\<lambda>values.
             if TCO_ENABLED \<and> is_Procedure proc then
               (case proc of VProc parms body definition_env \<Rightarrow>
                  (\<lambda>st. case application_env parms definition_env values st of
                          Inl e \<Rightarrow> raises e st
                        | Inr (env', st') \<Rightarrow>
                            evaluate h n (Lst (Sym ''begin'' # body)) env' st')
                | _ \<Rightarrow> raises TypeError)
             else try_call h (evaluate h n) proc values))"
proof -
  note kh = keyword_heads [OF assms(1)]
  have q: "match_quote (op # args) = None"
    using assms(2) kh(1) by (cases "op = Sym [CHR 0x27]") (simp_all add: match_quote_iff)
  have rest: "match_if (op # args) = None" "match_define (op # args) = None"
    "match_set (op # args) = None" "match_define_proc (op # args) = None"
    "match_lambda (op # args) = None"
    using kh by (simp_all add: no_match_other_head match_if_head)
  have heads: "match_head ''cond'' (op # args) = None" "match_head ''or'' (op # args) = None"
    "match_head ''and'' (op # args) = None" "match_head ''begin'' (op # args) = None"
    using kh by simp_all
  have app: "match_application (op # args) = Some (op, args)"
    using assms(1) by simp
  show ?thesis
    by (simp only: evaluate.simps exp.case q rest heads app option.case prod.case)
qed


lemma trampoline_step:
  assumes "op \<notin> Sym ` set KEYWORDS" and "op \<noteq> Sym [CHR 0x27] \<or> length args \<noteq> 1"
    and "evaluate h (Suc n) op env st = Some (Inr (VProc parms body definition_env), st1)"
    and "eval_args (evaluate h (Suc n)) args env st1 = Some (Inr values, st2)"
  shows "evaluate h (Suc (Suc n)) (Lst (op # args)) env st =
      (case application_env parms definition_env values st2 of
         Inl e \<Rightarrow> Some (Inl e, st2)
       | Inr (env', st') \<Rightarrow> evaluate h (Suc n) (Lst (Sym ''begin'' # body)) env' st')"
  unfolding evaluate_application [OF assms(1,2)]
  by (simp add: and_then_Some_Inr [where m = "evaluate h (Suc n) op env", OF assms(3)]
      and_then_Some_Inr [where m = "eval_args (evaluate h (Suc n)) args env", OF assms(4)]
      TCO_ENABLED_def raises_def split: sum.splits)

lemma trampoline_exact:
  assumes "op \<notin> Sym ` set KEYWORDS" and "op \<noteq> Sym [CHR 0x27] \<or> length args \<noteq> 1"
    and "evaluate h (Suc n) op env st = Some (Inr (VProc parms body definition_env), st1)"
    and "eval_args (evaluate h (Suc n)) args env st1 = Some (Inr values, st2)"
    and "body \<noteq> []"
  shows "evaluate h (Suc (Suc n)) (Lst (op # args)) env st
           = Procedure_call (evaluate h n) parms body definition_env values st2"
proof (cases "application_env parms definition_env values st2")
  case (Inl e)
  then show ?thesis by (simp add: trampoline_step [OF assms(1-4)] Procedure_call_def)
next
  case (Inr r)
  obtain env' st' where r: "r = (env', st')" by (cases r)
  from eval_body_butlast_last [OF assms(5), of "evaluate h n" env' None] assms(5)
  show ?thesis
    by (simp add: trampoline_step [OF assms(1-4)] Procedure_call_def Inr r evaluate_begin)
qed

lemma trampoline_fuel_free:
  assumes "op \<notin> Sym ` set KEYWORDS" and "op \<noteq> Sym [CHR 0x27] \<or> length args \<noteq> 1"
    and "evaluate h (Suc n) op env st = Some (Inr (VProc parms body definition_env), st1)"
    and "eval_args (evaluate h (Suc n)) args env st1 = Some (Inr values, st2)"
    and "body \<noteq> []"
  shows "(\<exists>k. evaluate h k (Lst (op # args)) env st = Some r)
       \<longleftrightarrow> (\<exists>k. Procedure_call (evaluate h k) parms body definition_env values st2 = Some r)"
proof
  assume "\<exists>k. evaluate h k (Lst (op # args)) env st = Some r"
  then obtain k where k: "evaluate h k (Lst (op # args)) env st = Some r" ..
  let ?m = "n + k"
  from evaluate_fuel_mono [OF k, of "Suc (Suc n)"]
  have big: "evaluate h (Suc (Suc ?m)) (Lst (op # args)) env st = Some r"
    by (simp add: add.commute)
  from evaluate_fuel_mono [OF assms(3), of k]
  have o: "evaluate h (Suc ?m) op env st = Some (Inr (VProc parms body definition_env), st1)"
    by simp
  from le_compD [OF eval_args_le [OF le_ev_fuel [of h "Suc n" k]] assms(4)]
  have a: "eval_args (evaluate h (Suc ?m)) args env st1 = Some (Inr values, st2)" by simp
  from trampoline_exact [OF assms(1,2) o a assms(5)] big
  have "Procedure_call (evaluate h ?m) parms body definition_env values st2 = Some r" by simp
  then show "\<exists>k. Procedure_call (evaluate h k) parms body definition_env values st2 = Some r" ..
next
  assume "\<exists>k. Procedure_call (evaluate h k) parms body definition_env values st2 = Some r"
  then obtain k where k: "Procedure_call (evaluate h k) parms body definition_env values st2 = Some r" ..
  let ?m = "k + n"
  from le_compD [OF Procedure_call_le [OF le_ev_fuel [of h k n]] k]
  have c: "Procedure_call (evaluate h ?m) parms body definition_env values st2 = Some r" .
  from evaluate_fuel_mono [OF assms(3), of k]
  have o: "evaluate h (Suc ?m) op env st = Some (Inr (VProc parms body definition_env), st1)"
    by (simp add: add.commute)
  from le_compD [OF eval_args_le [OF le_ev_fuel [of h "Suc n" k]] assms(4)]
  have a: "eval_args (evaluate h (Suc ?m)) args env st1 = Some (Inr values, st2)"
    by (simp add: add.commute)
  from trampoline_exact [OF assms(1,2) o a assms(5)] c
  have "evaluate h (Suc (Suc ?m)) (Lst (op # args)) env st = Some r" by simp
  then show "\<exists>k. evaluate h k (Lst (op # args)) env st = Some r" ..
qed

text \<open>
  Claim C2. Let \<open>(op args...)\<close> be an application (its head is no keyword, and it is not
  the quote form written with \<open>'\<close>), where \<open>op\<close> evaluates to a Procedure with
  \<open>parms\<close>, \<open>body\<close> and \<open>definition_env\<close> and the arguments evaluate to \<open>values\<close>.
  \<open>evaluate\<close> then sets \<open>exp\<close> to \<open>(begin . body)\<close> and \<open>env\<close> to
  \<open>application_env(values)\<close> and goes round its loop. For a procedure with a body (the
  evaluator makes no other: \<open>lambda\<close> and the sugared \<open>define\<close> ask for
  \<open>len(body) > 0\<close>) the outcome is the outcome of \<open>Procedure.__call__\<close> on \<open>values\<close>:
  the same value or exception and the same store, with two units of fuel more for the loop;
  and, whatever the fuel, the application ends in an outcome if and only if \<open>__call__\<close>
  ends in it. For every procedure, the one path returns a value if and only if the other
  returns it. (With an empty body both raise: the loop an \<open>IndexError\<close>, \<open>__call__\<close> an
  \<open>UnboundLocalError\<close>.)
\<close>

theorem trampoline_equals_Procedure_call:
  assumes "op \<notin> Sym ` set KEYWORDS" and "op \<noteq> Sym [CHR 0x27] \<or> length args \<noteq> 1"
    and "evaluate h (Suc n) op env st = Some (Inr (VProc parms body definition_env), st1)"
    and "eval_args (evaluate h (Suc n)) args env st1 = Some (Inr values, st2)"
  shows "(body \<noteq> [] \<longrightarrow>
            evaluate h (Suc (Suc n)) (Lst (op # args)) env st
              = Procedure_call (evaluate h n) parms body definition_env values st2
            \<and> (\<forall>r. (\<exists>k. evaluate h k (Lst (op # args)) env st = Some r)
                  \<longleftrightarrow> (\<exists>k. Procedure_call (evaluate h k) parms body definition_env values st2 = Some r)))
       \<and> (\<forall>v st3. evaluate h (Suc (Suc n)) (Lst (op # args)) env st = Some (Inr v, st3)
              \<longleftrightarrow> Procedure_call (evaluate h n) parms body definition_env values st2 = Some (Inr v, st3))"
proof (intro conjI impI allI)
  assume ne: "body \<noteq> []"
  show "evaluate h (Suc (Suc n)) (Lst (op # args)) env st
      = Procedure_call (evaluate h n) parms body definition_env values st2"
    by (rule trampoline_exact [OF assms ne])
  show "(\<exists>k. evaluate h k (Lst (op # args)) env st = Some r)
      \<longleftrightarrow> (\<exists>k. Procedure_call (evaluate h k) parms body definition_env values st2 = Some r)" for r
    by (rule trampoline_fuel_free [OF assms ne])
next
  fix v st3
  show "evaluate h (Suc (Suc n)) (Lst (op # args)) env st = Some (Inr v, st3)
      \<longleftrightarrow> Procedure_call (evaluate h n) parms body definition_env values st2 = Some (Inr v, st3)"
  proof (cases "body = []")
    case True
    show ?thesis
    proof (cases "application_env parms definition_env values st2")
      case (Inl e)
      then show ?thesis by (simp add: trampoline_step [OF assms] Procedure_call_def)
    next
      case (Inr r)
      obtain env' st' where r: "r = (env', st')" by (cases r)
      from True show ?thesis
        by (simp add: trampoline_step [OF assms] Procedure_call_def Inr r evaluate_begin
            returns_and_then raises_def)
    qed
  next
    case False
    from trampoline_exact [OF assms False] show ?thesis by simp
  qed
qed

theorem trampoline_equals_Procedure_call_witness:
  "\<forall>h :: 'f host. \<forall>n.
     evaluate h (Suc (Suc (Suc n)))
        (Lst [Lst [Sym ''lambda'', Lst [Sym ''x''], Num 1, Sym ''x''], Num 5]) [Dict 0] [[]]
       = Some (Inr (VInt 5), [[], [(Sym ''x'', VInt 5)]])
     \<and> Procedure_call (evaluate h (Suc n)) [Sym ''x''] [Num 1, Sym ''x''] [Dict 0] [VInt 5] [[]]
       = Some (Inr (VInt 5), [[], [(Sym ''x'', VInt 5)]])"
proof (intro allI)
  fix h :: "'f host" and n
  let ?op = "Lst [Sym ''lambda'', Lst [Sym ''x''], Num 1, Sym ''x''] :: 'f exp"
  have kw: "?op \<notin> Sym ` set KEYWORDS"
    by (simp add: image_iff)
  have q: "?op \<noteq> Sym [CHR 0x27] \<or> length [Num 5 :: 'f exp] \<noteq> 1" by simp
  have op: "evaluate h (Suc (Suc n)) ?op [Dict 0] [[]]
      = Some (Inr (VProc [Sym ''x''] [Num 1, Sym ''x''] [Dict 0]), [[]])"
    by (simp add: evaluate.simps returns_def)
  have args: "eval_args (evaluate h (Suc (Suc n))) [Num 5] [Dict 0] [[]] = Some (Inr [VInt 5], [[]])"
    by (simp add: evaluate.simps and_then_def returns_def)
  have call: "Procedure_call (evaluate h (Suc n)) [Sym ''x''] [Num 1, Sym ''x''] [Dict 0] [VInt 5] [[]]
       = Some (Inr (VInt 5), [[], [(Sym ''x'', VInt 5)]])"
    by (simp add: Procedure_call_def application_env_def dict_of_def new_dict_def evaluate.simps
        and_then_def returns_def dict_at_def dict_get_def)
  have ne: "[Num 1, Sym ''x'' :: 'f exp] \<noteq> []" by simp
  from trampoline_equals_Procedure_call [OF kw q op args]
  have "[Num 1, Sym ''x'' :: 'f exp] \<noteq> [] \<longrightarrow>
      evaluate h (Suc (Suc (Suc n))) (Lst [?op, Num 5]) [Dict 0] [[]]
        = Procedure_call (evaluate h (Suc n)) [Sym ''x''] [Num 1, Sym ''x''] [Dict 0] [VInt 5] [[]]
      \<and> (\<forall>r. (\<exists>k. evaluate h k (Lst [?op, Num 5]) [Dict 0] [[]] = Some r)
            \<longleftrightarrow> (\<exists>k. Procedure_call (evaluate h k) [Sym ''x''] [Num 1, Sym ''x''] [Dict 0] [VInt 5] [[]] = Some r))"
    by (rule conjunct1)
  from this ne
  have "evaluate h (Suc (Suc (Suc n))) (Lst [?op, Num 5]) [Dict 0] [[]]
        = Procedure_call (evaluate h (Suc n)) [Sym ''x''] [Num 1, Sym ''x''] [Dict 0] [VInt 5] [[]]
      \<and> (\<forall>r. (\<exists>k. evaluate h k (Lst [?op, Num 5]) [Dict 0] [[]] = Some r)
            \<longleftrightarrow> (\<exists>k. Procedure_call (evaluate h k) [Sym ''x''] [Num 1, Sym ''x''] [Dict 0] [VInt 5] [[]] = Some r))"
    by (rule mp)
  then have "evaluate h (Suc (Suc (Suc n))) (Lst [?op, Num 5]) [Dict 0] [[]]
        = Procedure_call (evaluate h (Suc n)) [Sym ''x''] [Num 1, Sym ''x''] [Dict 0] [VInt 5] [[]]"
    by (rule conjunct1)
  with call show "evaluate h (Suc (Suc (Suc n)))
        (Lst [Lst [Sym ''lambda'', Lst [Sym ''x''], Num 1, Sym ''x''], Num 5]) [Dict 0] [[]]
       = Some (Inr (VInt 5), [[], [(Sym ''x'', VInt 5)]])
     \<and> Procedure_call (evaluate h (Suc n)) [Sym ''x''] [Num 1, Sym ''x''] [Dict 0] [VInt 5] [[]]
       = Some (Inr (VInt 5), [[], [(Sym ''x'', VInt 5)]])"
    by simp
qed

subsection \<open>Closures\<close>

lemma evaluate_lambda:
  "body \<noteq> [] \<Longrightarrow>
   evaluate h (Suc n) (Lst (Sym ''lambda'' # Lst parms # body)) env st
     = Some (Inr (VProc parms body env), st)"
  by (simp add: evaluate.simps no_match_other_head returns_def)

lemma match_define_list: "match_define (head # Lst xs # rest) = None"
  by (cases "head # Lst xs # rest" rule: match_define.cases) simp_all

lemma match_set_define: "match_set (Sym ''define'' # rest) = None"
  by (rule match_set_head) simp

lemma evaluate_define_procedure:
  "body \<noteq> [] \<Longrightarrow>
   evaluate h (Suc n) (Lst (Sym ''define'' # Lst (Sym name # parms) # body)) env st
     = (case setitem st env (Sym name) (VProc parms body env) of
          Inl e \<Rightarrow> Some (Inl e, st)
        | Inr st' \<Rightarrow> Some (Inr VNone, st'))"
  by (simp add: evaluate.simps match_quote_head match_if_head match_define_list match_set_define
      returns_def raises_def split: sum.splits)

lemma application_env_fresh:
  assumes "\<forall>p \<in> set parms. hashable p"
  shows "\<exists>d. application_env parms definition_env args st
            = Inr ([Dict (length st), Env definition_env], st @ [d])"
proof -
  from assms have "\<forall>k \<in> fst ` set (zip parms args). hashable k"
    by (auto dest: set_zip_leftD)
  from dict_update_hashable [OF this, of "[]"] obtain d where "dict_of (zip parms args) = Inr d"
    by (auto simp: dict_of_def)
  then show ?thesis by (simp add: application_env_def new_dict_def)
qed

lemma make_adder_session:
  assumes "\<forall>a b. call_builtin h ''+'' [VInt a, VInt b] = Inr (VInt (a + b))"
  shows "eval_args (evaluate h (Suc (Suc (Suc (Suc n))))) make_adder_program [Dict 0]
             [[(Sym ''+'', VBuiltin ''+'')]]
           = Some (Inr [VNone, VInt 7, VNone, VNone, VInt 7, VInt 9],
               [[(Sym ''+'', VBuiltin ''+''),
                 (Sym ''make-adder'',
                  VProc [Sym ''n'']
                    [Lst [Sym ''lambda'', Lst [Sym ''x''], Lst [Sym ''+'', Sym ''x'', Sym ''n'']]]
                    [Dict 0]),
                 (Sym ''add3'',
                  VProc [Sym ''x''] [Lst [Sym ''+'', Sym ''x'', Sym ''n'']] [Dict 3, Env [Dict 0]]),
                 (Sym ''add5'',
                  VProc [Sym ''x''] [Lst [Sym ''+'', Sym ''x'', Sym ''n'']] [Dict 4, Env [Dict 0]])],
                [(Sym ''n'', VInt 3)], [(Sym ''x'', VInt 4)], [(Sym ''n'', VInt 3)],
                [(Sym ''n'', VInt 5)], [(Sym ''x'', VInt 4)], [(Sym ''x'', VInt 4)]])"
  using assms
  by (simp add: make_adder_program_def evaluate.simps and_then_def returns_def raises_def
      dict_at_def dict_contains_def dict_get_def KEYWORDS_def KEYWORDS_1_def KEYWORDS_2_def
      TCO_ENABLED_def application_env_def dict_of_def new_dict_def try_call_def)


text \<open>
  Claim C4. \<open>(lambda (parms...) body...+)\<close> returns, and
  \<open>(define (name parms...) body...+)\<close> binds to \<open>name\<close>, the Procedure that holds
  \<open>parms\<close>, \<open>body\<close> and the environment \<open>env\<close> the form is evaluated in; a Procedure
  is a value whose fields nothing assigns to afterwards. Its application (with hashable
  parameters) allocates a dict that is new in the store and puts it in front of that same
  environment. With \<open>+\<close> bound to a callable that adds ints, in the session
  \<open>make_adder_program\<close> both \<open>((make-adder 3) 4)\<close> and \<open>(add3 4)\<close> give 7 and
  \<open>(add5 4)\<close> gives 9: the three calls of \<open>make-adder\<close> made the frames 1, 3 and 4 of
  the final store, and the closures \<open>add3\<close> and \<open>add5\<close> hold the frames 3 and 4 in
  front of the global environment, also after the later definitions and calls.
\<close>

theorem closure_captures_definition_env:
  assumes "body \<noteq> []" and "\<forall>p \<in> set parms. hashable p"
    and "\<forall>a b. call_builtin h ''+'' [VInt a, VInt b] = Inr (VInt (a + b))"
  shows "evaluate h (Suc n) (Lst (Sym ''lambda'' # Lst parms # body)) env st
           = Some (Inr (VProc parms body env), st)
       \<and> evaluate h (Suc n) (Lst (Sym ''define'' # Lst (Sym name # parms) # body)) env st
           = (case setitem st env (Sym name) (VProc parms body env) of
                Inl e \<Rightarrow> Some (Inl e, st)
              | Inr st' \<Rightarrow> Some (Inr VNone, st'))
       \<and> (\<exists>d. application_env parms env args st2 = Inr ([Dict (length st2), Env env], st2 @ [d]))
       \<and> eval_args (evaluate h (Suc (Suc (Suc (Suc n))))) make_adder_program [Dict 0]
             [[(Sym ''+'', VBuiltin ''+'')]]
           = Some (Inr [VNone, VInt 7, VNone, VNone, VInt 7, VInt 9],
               [[(Sym ''+'', VBuiltin ''+''),
                 (Sym ''make-adder'',
                  VProc [Sym ''n'']
                    [Lst [Sym ''lambda'', Lst [Sym ''x''], Lst [Sym ''+'', Sym ''x'', Sym ''n'']]]
                    [Dict 0]),
                 (Sym ''add3'',
                  VProc [Sym ''x''] [Lst [Sym ''+'', Sym ''x'', Sym ''n'']] [Dict 3, Env [Dict 0]]),
                 (Sym ''add5'',
                  VProc [Sym ''x''] [Lst [Sym ''+'', Sym ''x'', Sym ''n'']] [Dict 4, Env [Dict 0]])],
                [(Sym ''n'', VInt 3)], [(Sym ''x'', VInt 4)], [(Sym ''n'', VInt 3)],
                [(Sym ''n'', VInt 5)], [(Sym ''x'', VInt 4)], [(Sym ''x'', VInt 4)]])"
  using evaluate_lambda [OF assms(1)] evaluate_define_procedure [OF assms(1)]
    application_env_fresh [OF assms(2)] make_adder_session [OF assms(3)]
  by simp

theorem closure_captures_definition_env_witness:
  "evaluate adding_host (Suc 0) (Lst [Sym ''lambda'', Lst [Sym ''x''], Sym ''x'']) [Dict 0] [[]]
     = Some (Inr (VProc [Sym ''x''] [Sym ''x''] [Dict 0]), [[]])
   \<and> map_option fst
       (eval_args (evaluate adding_host (Suc (Suc (Suc (Suc 0))))) make_adder_program [Dict 0]
          [[(Sym ''+'', VBuiltin ''+'')]])
     = Some (Inr [VNone, VInt 7, VNone, VNone, VInt 7, VInt 9])"
proof -
  have ne: "[Sym ''x'' :: unit exp] \<noteq> []" by simp
  have hs: "\<forall>p \<in> set [Sym ''x'' :: unit exp]. hashable p" by simp
  have plus: "\<forall>a b. call_builtin adding_host ''+'' [VInt a, VInt b] = Inr (VInt (a + b))"
    by (simp add: adding_host_def)
  from closure_captures_definition_env [OF ne hs plus, of 0 "[Dict 0]" "[[]]"]
  show ?thesis by simp
qed

subsection \<open>The reader\<close>

lemma length_after: "length (after d tokens) \<le> length tokens"
  by (induction d tokens rule: after.induct) auto

lemma closes_add: "closes (d + e) tokens = (closes e tokens \<and> closes d (after e tokens))"
proof (induction e tokens arbitrary: d rule: closes.induct)
  case (1 tokens)
  then show ?case by simp
next
  case (2 e)
  then show ?case by simp
next
  case (3 e t tokens)
  show ?case
  proof (cases "t = ''(''")
    case True
    with "3.IH"(1) [of d] show ?thesis by simp
  next
    case False
    show ?thesis
    proof (cases "t = '')''")
      case True
      with False "3.IH"(2) [of d] show ?thesis by simp
    next
      case f2: False
      with False "3.IH"(3) [of d] show ?thesis by simp
    qed
  qed
qed

lemma after_add: "closes e tokens \<Longrightarrow> after (d + e) tokens = after d (after e tokens)"
proof (induction e tokens arbitrary: d rule: closes.induct)
  case (1 tokens)
  then show ?case by simp
next
  case (2 e)
  then show ?case by simp
next
  case (3 e t tokens)
  show ?case
  proof (cases "t = ''(''")
    case True
    with "3.IH"(1) [of d] "3.prems" show ?thesis by simp
  next
    case False
    show ?thesis
    proof (cases "t = '')''")
      case True
      with False "3.IH"(2) [of d] "3.prems" show ?thesis by simp
    next
      case f2: False
      with False "3.IH"(3) [of d] "3.prems" show ?thesis by simp
    qed
  qed
qed

lemma closes_open: "closes 1 (''('' # tokens) = (closes 1 tokens \<and> closes 1 (after 1 tokens))"
  using closes_add [of 1 1 tokens] by simp

lemma after_open: "closes 1 tokens \<Longrightarrow> after 1 (''('' # tokens) = after 1 (after 1 tokens)"
  using after_add [of 1 tokens 1] by simp


lemma read_list_close: "read_list h (Suc n) acc ('')'' # tokens) = Some (Inr (Lst acc, tokens))"
  by simp

lemma read_list_element:
  "t \<noteq> '')'' \<Longrightarrow> read_from_tokens h n (t # tokens) = Some (Inr (x, rest)) \<Longrightarrow>
   read_list h (Suc n) acc (t # tokens) = read_list h n (acc @ [x]) rest"
  by simp

lemma read_list_element_error:
  "t \<noteq> '')'' \<Longrightarrow> read_from_tokens h n (t # tokens) = Some (Inl e) \<Longrightarrow>
   read_list h (Suc n) acc (t # tokens) = Some (Inl e)"
  by simp

lemma after_two: "closes (Suc 0) ts \<Longrightarrow> after (Suc (Suc 0)) ts = after (Suc 0) (after (Suc 0) ts)"
  using after_add [of "Suc 0" ts "Suc 0"] by simp

lemma read_list_okI:
  "closes 1 tokens \<Longrightarrow> read_list h n acc tokens = Some (Inr (Lst (acc @ es), after 1 tokens)) \<Longrightarrow>
   read_list_ok h n acc tokens"
  unfolding read_list_ok_def by (simp del: read_list.simps)

lemma read_list_ok_EOS:
  "\<not> closes 1 tokens \<Longrightarrow> read_list h n acc tokens = Some (Inl UnexpectedEndOfSource) \<Longrightarrow>
   read_list_ok h n acc tokens"
  unfolding read_list_ok_def by (simp del: read_list.simps)

lemma closes_atom: "t \<noteq> ''('' \<Longrightarrow> t \<noteq> '')'' \<Longrightarrow> closes 1 (t # ts) = closes 1 ts"
  by simp

lemma after_atom: "t \<noteq> ''('' \<Longrightarrow> t \<noteq> '')'' \<Longrightarrow> after 1 (t # ts) = after 1 ts"
  by simp

lemma reader_ok:
  "(\<forall>acc tokens. 2 * length tokens + 2 \<le> n \<longrightarrow> read_list_ok h n acc tokens)
   \<and> (\<forall>tokens. 2 * length tokens + 1 \<le> n \<longrightarrow> read_ok h n tokens)"
proof (induction n)
  case 0
  then show ?case by simp
next
  case (Suc n)
  then have IHl: "\<And>acc tokens. 2 * length tokens + 2 \<le> n \<Longrightarrow> read_list_ok h n acc tokens"
    and IHr: "\<And>tokens. 2 * length tokens + 1 \<le> n \<Longrightarrow> read_ok h n tokens"
    by simp_all
  have r: "read_ok h (Suc n) tokens" if le: "2 * length tokens + 1 \<le> Suc n" for tokens
  proof (cases tokens)
    case Nil
    then show ?thesis by (simp add: read_ok_def)
  next
    case (Cons t ts)
    show ?thesis
    proof (cases "t = ''(''")
      case True
      from le Cons have "2 * length ts + 2 \<le> n" by simp
      from IHl [OF this, of "[]"] True Cons show ?thesis
        by (cases "closes 1 ts") (simp_all add: read_ok_def read_list_ok_def)
    next
      case False
      with Cons show ?thesis by (simp add: read_ok_def)
    qed
  qed
  have l: "read_list_ok h (Suc n) acc tokens" if le: "2 * length tokens + 2 \<le> Suc n" for acc tokens
  proof (cases tokens)
    case Nil
    then show ?thesis by (simp add: read_list_ok_def)
  next
    case (Cons t ts)
    from le Cons have le1: "2 * length (t # ts) + 1 \<le> n" by simp
    from le Cons have le2: "2 * length ts + 2 \<le> n" by simp
    note rt = IHr [OF le1]
    show ?thesis
    proof (cases "t = '')''")
      case True
      have "read_list h (Suc n) acc ('')'' # ts) = Some (Inr (Lst (acc @ []), after 1 ('')'' # ts)))"
        by simp
      moreover have "closes 1 ('')'' # ts)" by simp
      ultimately show ?thesis unfolding Cons True by (rule read_list_okI [rotated])
    next
      case nclose: False
      show ?thesis
      proof (cases "t = ''(''")
        case True
        show ?thesis
        proof (cases "closes 1 ts")
          case c1: True
          with rt True obtain es where
            es: "read_from_tokens h n (t # ts) = Some (Inr (Lst es, after 1 ts))"
            by (auto simp: read_ok_def)
          have "2 * length (after 1 ts) + 2 \<le> n"
            using le2 length_after [of 1 ts] by simp
          note rl = IHl [OF this, of "acc @ [Lst es]"]
          have step: "read_list h (Suc n) acc (t # ts) = read_list h n (acc @ [Lst es]) (after 1 ts)"
            using nclose es by (rule read_list_element)
          show ?thesis
          proof (cases "closes 1 (after 1 ts)")
            case c2: True
            with rl obtain es' where
              "read_list h n (acc @ [Lst es]) (after 1 ts)
                 = Some (Inr (Lst ((acc @ [Lst es]) @ es'), after 1 (after 1 ts)))"
              by (auto simp: read_list_ok_def)
            then have "read_list h (Suc n) acc (''('' # ts)
                 = Some (Inr (Lst (acc @ (Lst es # es')), after 1 (''('' # ts)))"
              using step True c1 by (simp add: after_two del: read_list.simps)
            moreover have "closes 1 (''('' # ts)" using c1 c2 by (simp only: closes_open)
            ultimately show ?thesis unfolding Cons True by (rule read_list_okI [rotated])
          next
            case c2: False
            with rl have "read_list h n (acc @ [Lst es]) (after 1 ts) = Some (Inl UnexpectedEndOfSource)"
              by (simp add: read_list_ok_def)
            then have "read_list h (Suc n) acc (''('' # ts) = Some (Inl UnexpectedEndOfSource)"
              using step True by (simp del: read_list.simps)
            moreover have "\<not> closes 1 (''('' # ts)" using c2 by (simp only: closes_open simp_thms)
            ultimately show ?thesis unfolding Cons True by (rule read_list_ok_EOS [rotated])
          qed
        next
          case c1: False
          with rt True have "read_from_tokens h n (t # ts) = Some (Inl UnexpectedEndOfSource)"
            by (simp add: read_ok_def)
          with nclose have "read_list h (Suc n) acc (t # ts) = Some (Inl UnexpectedEndOfSource)"
            by (rule read_list_element_error)
          moreover have "\<not> closes 1 (t # ts)" using c1 unfolding True by (simp only: closes_open simp_thms)
          ultimately show ?thesis unfolding Cons by (rule read_list_ok_EOS [rotated])
        qed
      next
        case nopen: False
        with rt nclose have "read_from_tokens h n (t # ts) = Some (Inr (parse_atom h t, ts))"
          by (simp add: read_ok_def)
        with nclose have step: "read_list h (Suc n) acc (t # ts) = read_list h n (acc @ [parse_atom h t]) ts"
          by (rule read_list_element)
        note rl = IHl [OF le2, of "acc @ [parse_atom h t]"]
        show ?thesis
        proof (cases "closes 1 ts")
          case True
          with rl obtain es' where
            "read_list h n (acc @ [parse_atom h t]) ts
               = Some (Inr (Lst ((acc @ [parse_atom h t]) @ es'), after 1 ts))"
            by (auto simp: read_list_ok_def)
          then have "read_list h (Suc n) acc (t # ts)
               = Some (Inr (Lst (acc @ (parse_atom h t # es')), after 1 (t # ts)))"
            using step nopen nclose by (simp del: read_list.simps)
          moreover have "closes 1 (t # ts)" using True by (simp only: closes_atom [OF nopen nclose])
          ultimately show ?thesis unfolding Cons by (rule read_list_okI [rotated])
        next
          case False
          with rl have "read_list h n (acc @ [parse_atom h t]) ts = Some (Inl UnexpectedEndOfSource)"
            by (simp add: read_list_ok_def)
          then have "read_list h (Suc n) acc (t # ts) = Some (Inl UnexpectedEndOfSource)"
            using step by simp
          moreover have "\<not> closes 1 (t # ts)" using False by (simp only: closes_atom [OF nopen nclose] simp_thms)
          ultimately show ?thesis unfolding Cons by (rule read_list_ok_EOS [rotated])
        qed
      qed
    qed
  qed
  from r l show ?case by blast
qed


lemma read_ok_parse: "read_ok h (2 * length tokens + 2) tokens"
  using reader_ok [of "2 * length tokens + 2" h] by simp

lemma parse_total: "parse h source \<noteq> None"
proof -
  let ?ts = "tokenize source"
  have "read_from_tokens h (2 * length ?ts + 2) ?ts \<noteq> None"
  proof (cases ?ts)
    case Nil
    with read_ok_parse [of h ?ts] show ?thesis by (simp add: read_ok_def)
  next
    case (Cons t ts)
    with read_ok_parse [of h ?ts] show ?thesis
      by (cases "t = ''(''"; cases "t = '')''"; cases "closes 1 ts")
         (auto simp: read_ok_def simp del: read_from_tokens.simps)
  qed
  then show ?thesis by (simp add: parse_def Let_def)
qed

lemma parse_Nil: "tokenize source = [] \<Longrightarrow> parse h source = Some (Inl UnexpectedEndOfSource)"
  by (simp add: parse_def)

lemma parse_close: "tokenize source = '')'' # ts \<Longrightarrow> parse h source = Some (Inl UnexpectedCloseParen)"
  by (simp add: parse_def)

lemma parse_atom_token:
  "tokenize source = t # ts \<Longrightarrow> t \<noteq> ''('' \<Longrightarrow> t \<noteq> '')'' \<Longrightarrow>
   parse h source = Some (Inr (parse_atom h t))"
  by (simp add: parse_def)

lemma parse_open_unclosed:
  assumes "tokenize source = ''('' # ts" and "\<not> closes 1 ts"
  shows "parse h source = Some (Inl UnexpectedEndOfSource)"
proof -
  from read_ok_parse [of h "''('' # ts"] assms(2)
  have "read_from_tokens h (2 * length (''('' # ts) + 2) (''('' # ts) = Some (Inl UnexpectedEndOfSource)"
    by (simp add: read_ok_def del: read_from_tokens.simps)
  then show ?thesis by (simp add: parse_def assms(1) del: read_from_tokens.simps)
qed

lemma parse_open_closed:
  assumes "tokenize source = ''('' # ts" and "closes 1 ts"
  shows "\<exists>es. parse h source = Some (Inr (Lst es))"
proof -
  from read_ok_parse [of h "''('' # ts"] assms(2)
  obtain es where "read_from_tokens h (2 * length (''('' # ts) + 2) (''('' # ts) = Some (Inr (Lst es, after 1 ts))"
    by (auto simp: read_ok_def simp del: read_from_tokens.simps)
  then have "parse h source = Some (Inr (Lst es))"
    by (simp add: parse_def assms(1) del: read_from_tokens.simps)
  then show ?thesis ..
qed


lemma tokenize_unclosed_example: "tokenize ''(+ 1 2'' = [''('', ''+'', ''1'', ''2'']"
  by (simp add: tokenize_def split_def isspace_def)

lemma tokenize_close_example: "tokenize '')'' = ['')'']"
  by (simp add: tokenize_def split_def isspace_def)

text \<open>
  Claim C7. \<open>parse\<close> fails with \<open>UnexpectedEndOfSource\<close> exactly when the source has no
  token at all, or its first token is \<open>(\<close> and the tokens after it end before that list
  is closed (at whatever depth of nesting the tokens run out); it fails with
  \<open>UnexpectedCloseParen\<close> exactly when the first token is \<open>)\<close>, the only place where
  \<open>read_from_tokens\<close> pops a \<open>)\<close> that closes no list. In particular \<open>(+ 1 2\<close>
  fails with the first and \<open>)\<close> with the second.
\<close>

theorem reader_errors:
  "(parse h source = Some (Inl UnexpectedEndOfSource) \<longleftrightarrow>
      tokenize source = [] \<or> (\<exists>ts. tokenize source = ''('' # ts \<and> \<not> closes 1 ts))
   \<and> (parse h source = Some (Inl UnexpectedCloseParen) \<longleftrightarrow> (\<exists>ts. tokenize source = '')'' # ts))
   \<and> parse h ''(+ 1 2'' = Some (Inl UnexpectedEndOfSource)
   \<and> parse h '')'' = Some (Inl UnexpectedCloseParen)"
proof -
  have ex1: "parse h ''(+ 1 2'' = Some (Inl UnexpectedEndOfSource)"
    by (rule parse_open_unclosed [OF tokenize_unclosed_example]) simp
  have ex2: "parse h '')'' = Some (Inl UnexpectedCloseParen)"
    by (rule parse_close [OF tokenize_close_example])
  have general:
    "(parse h source = Some (Inl UnexpectedEndOfSource) \<longleftrightarrow>
        tokenize source = [] \<or> (\<exists>ts. tokenize source = ''('' # ts \<and> \<not> closes 1 ts))
     \<and> (parse h source = Some (Inl UnexpectedCloseParen) \<longleftrightarrow> (\<exists>ts. tokenize source = '')'' # ts))"
  proof (cases "tokenize source")
    case Nil
    with parse_Nil [OF Nil, of h] show ?thesis by simp
  next
    case (Cons t ts)
    show ?thesis
    proof (cases "t = ''(''")
      case True
      show ?thesis
      proof (cases "closes 1 ts")
        case c: True
        from parse_open_closed [OF Cons [unfolded True] c, of h] obtain es where
          "parse h source = Some (Inr (Lst es))" ..
        with Cons True c show ?thesis by simp
      next
        case c: False
        from parse_open_unclosed [OF Cons [unfolded True] c, of h] Cons True c
        show ?thesis by simp
      qed
    next
      case nopen: False
      show ?thesis
      proof (cases "t = '')''")
        case True
        from parse_close [OF Cons [unfolded True], of h] Cons True show ?thesis by simp
      next
        case False
        from parse_atom_token [OF Cons nopen False, of h] Cons nopen False show ?thesis by simp
      qed
    qed
  qed
  from general ex1 ex2 show ?thesis by simp
qed

subsection \<open>Printing and reading an int\<close>

lemma of_char_digit_char: "d < 10 \<Longrightarrow> (of_char (digit_char d) :: nat) = 48 + d"
  by (simp add: digit_char_def)

lemma isdigit_digit_char: "d < 10 \<Longrightarrow> isdigit (digit_char d)"
  by (simp add: isdigit_def of_char_digit_char)

lemma digit_val_digit_char: "d < 10 \<Longrightarrow> digit_val (digit_char d) = d"
  by (simp add: digit_val_def of_char_digit_char)

lemma py_digits_all_digits:
  "list_all isdigit ds \<Longrightarrow> py_digits acc ds = Some (foldl (\<lambda>a c. 10 * a + digit_val c) acc ds)"
  by (induction acc ds rule: py_digits.induct) simp_all

lemma str_nat_digits: "list_all isdigit (str_nat n)"
proof (induction n rule: str_nat.induct)
  case (1 n)
  show ?case
  proof (cases "n < 10")
    case True
    then show ?thesis by (simp add: str_nat.simps [of n] isdigit_digit_char)
  next
    case False
    with 1 show ?thesis by (simp add: str_nat.simps [of n] isdigit_digit_char)
  qed
qed

lemma str_nat_value: "foldl (\<lambda>a c. 10 * a + digit_val c) 0 (str_nat n) = n"
proof (induction n rule: str_nat.induct)
  case (1 n)
  show ?case
  proof (cases "n < 10")
    case True
    then show ?thesis by (simp add: str_nat.simps [of n] digit_val_digit_char)
  next
    case False
    with 1 show ?thesis by (simp add: str_nat.simps [of n] digit_val_digit_char)
  qed
qed

lemma str_nat_not_Nil: "str_nat n \<noteq> []"
  by (subst str_nat.simps) simp

lemma py_nat_str_nat: "py_nat (str_nat n) = Some n"
proof (cases "str_nat n")
  case Nil
  with str_nat_not_Nil show ?thesis by simp
next
  case (Cons c cs)
  from str_nat_digits [of n] Cons have d: "isdigit c" "list_all isdigit cs" by simp_all
  from str_nat_value [of n] Cons have "foldl (\<lambda>a c. 10 * a + digit_val c) (digit_val c) cs = n"
    by simp
  with d Cons show ?thesis by (simp add: py_nat_def py_digits_all_digits)
qed

lemma isdigit_not_sign: "isdigit c \<Longrightarrow> c \<noteq> CHR ''-'' \<and> c \<noteq> CHR ''+''"
  by (auto simp: isdigit_def)

lemma py_int_str_int: "py_int (str_int i) = Some i"
proof (cases "i < 0")
  case True
  then show ?thesis by (simp add: str_int_def py_int_def py_nat_str_nat)
next
  case False
  obtain c cs where s: "str_nat (nat i) = c # cs"
    using str_nat_not_Nil [of "nat i"] by (cases "str_nat (nat i)") simp_all
  from str_nat_digits [of "nat i"] s have "isdigit c" by simp
  then have "c \<noteq> CHR ''-''" "c \<noteq> CHR ''+''" using isdigit_not_sign by simp_all
  moreover from py_nat_str_nat [of "nat i"] s have "py_nat (c # cs) = Some (nat i)" by simp
  ultimately show ?thesis using False s by (simp add: str_int_def py_int_def)
qed

lemma isdigit_token_char: "isdigit c \<Longrightarrow> \<not> isspace c \<and> c \<noteq> CHR ''('' \<and> c \<noteq> CHR '')''"
  by (auto simp: isdigit_def isspace_def)

lemma is_token_str_int: "is_token (str_int i)"
proof -
  have "list_all (\<lambda>c. \<not> isspace c \<and> c \<noteq> CHR ''('' \<and> c \<noteq> CHR '')'') (str_nat n)" for n
    using str_nat_digits [of n] isdigit_token_char by (simp add: list_all_iff)
  moreover have "\<not> isspace (CHR ''-'')" by (simp add: isspace_def)
  ultimately show ?thesis by (simp add: is_token_def str_int_def str_nat_not_Nil)
qed


subsection \<open>The tokens of a printed expression\<close>

lemma replace_char_append:
  "replace_char c new (a @ b) = replace_char c new a @ replace_char c new b"
  by (induction a) simp_all

lemma replace_char_absent: "c \<notin> set s \<Longrightarrow> replace_char c new s = s"
  by (induction s) auto

lemma spaced_append: "spaced (a @ b) = spaced a @ spaced b"
  by (simp add: spaced_def replace_char_append)

lemma spaced_token:
  assumes "is_token s"
  shows "spaced s = s"
proof -
  from assms have "CHR ''('' \<notin> set s" "CHR '')'' \<notin> set s"
    by (auto simp: is_token_def list_all_iff)
  then show ?thesis by (simp add: spaced_def replace_char_absent)
qed

lemma spaced_open: "spaced ''('' = '' ( ''"
  by (simp add: spaced_def)

lemma spaced_close: "spaced '')'' = '' ) ''"
  by (simp add: spaced_def)

lemma spaced_space: "spaced '' '' = '' ''"
  by (simp add: spaced_def)

lemma split_ws_token:
  "list_all (\<lambda>c. \<not> isspace c) w \<Longrightarrow> split_ws cur (w @ rest) = split_ws (cur @ w) rest"
  by (induction w arbitrary: cur) simp_all

lemma split_ws_space: "split_ws [] (CHR '' '' # rest) = split_ws [] rest"
  by (simp add: isspace_def)

lemma split_ws_end:
  "cur \<noteq> [] \<Longrightarrow> rest = [] \<or> isspace (hd rest) \<Longrightarrow> split_ws cur rest = cur # split_ws [] rest"
  by (cases rest) auto

lemma split_ws_paren:
  "split_ws [] (CHR '' '' # c # CHR '' '' # rest) = [c] # split_ws [] rest" if "\<not> isspace c"
  using that by (simp add: isspace_def)

lemma split_token:
  assumes "is_token w" and "rest = [] \<or> isspace (hd rest)"
  shows "split_ws [] (w @ rest) = w # split_ws [] rest"
proof -
  from assms(1) have "list_all (\<lambda>c. \<not> isspace c) w" and "w \<noteq> []"
    by (simp_all add: is_token_def list_all_iff)
  then show ?thesis using assms(2) by (simp add: split_ws_token split_ws_end)
qed


lemma spaced_space_Cons: "spaced (CHR '' '' # s) = CHR '' '' # spaced s"
  by (simp add: spaced_def)

lemma spaced_open_Cons: "spaced (CHR ''('' # s) = '' ( '' @ spaced s"
  by (simp add: spaced_def)

lemma split_close: "split_ws [] ('' ) '' @ rest) = '')'' # split_ws [] rest"
  by (simp add: isspace_def)

lemma split_open: "split_ws [] ('' ( '' @ rest) = ''('' # split_ws [] rest"
  by (simp add: isspace_def)

lemma split_spaced_join:
  assumes "\<And>x rest. x \<in> set xs \<Longrightarrow> rest = [] \<or> isspace (hd rest) \<Longrightarrow>
             split_ws [] (spaced (lispstr h x) @ rest) = tokens_of h x @ split_ws [] rest"
  shows "split_ws [] (spaced (join (map (lispstr h) xs)) @ '' ) '' @ rest)
           = concat (map (tokens_of h) xs) @ '')'' # split_ws [] rest"
  using assms
proof (induction xs)
  case Nil
  show ?case using split_close [of rest] by (simp add: spaced_def)
next
  case (Cons x xs)
  have sp: "isspace (CHR '' '')" by (simp add: isspace_def)
  show ?case
  proof (cases xs)
    case Nil
    have "split_ws [] (spaced (lispstr h x) @ '' ) '' @ rest)
            = tokens_of h x @ split_ws [] ('' ) '' @ rest)"
      by (rule Cons.prems) (simp_all add: sp)
    then show ?thesis using Nil split_close [of rest] by simp
  next
    case (Cons y ys)
    have IH: "split_ws [] (spaced (join (map (lispstr h) xs)) @ '' ) '' @ rest)
           = concat (map (tokens_of h) xs) @ '')'' # split_ws [] rest"
      by (rule Cons.IH) (simp add: Cons.prems)
    have "split_ws [] (spaced (lispstr h x) @ ('' '' @ spaced (join (map (lispstr h) xs)) @ '' ) '' @ rest))
            = tokens_of h x @ split_ws [] ('' '' @ spaced (join (map (lispstr h) xs)) @ '' ) '' @ rest)"
      by (rule Cons.prems) (simp_all add: sp)
    also have "split_ws [] ('' '' @ spaced (join (map (lispstr h) xs)) @ '' ) '' @ rest)
            = split_ws [] (spaced (join (map (lispstr h) xs)) @ '' ) '' @ rest)"
      using split_ws_space by simp
    finally show ?thesis using IH Cons by (simp add: spaced_append spaced_space_Cons)
  qed
qed

lemma split_spaced_lispstr:
  "canonical h e \<Longrightarrow> rest = [] \<or> isspace (hd rest) \<Longrightarrow>
   split_ws [] (spaced (lispstr h e) @ rest) = tokens_of h e @ split_ws [] rest"
proof (induction e arbitrary: rest)
  case (Num n)
  then show ?case by (simp add: spaced_token is_token_str_int split_token)
next
  case (Flt x)
  then show ?case by (simp add: spaced_token split_token)
next
  case (Sym s)
  then show ?case by (simp add: spaced_token split_token)
next
  case (Lst xs)
  have items: "split_ws [] (spaced (lispstr h x) @ rest) = tokens_of h x @ split_ws [] rest"
    if "x \<in> set xs" "rest = [] \<or> isspace (hd rest)" for x rest
    using Lst.IH [OF that(1) _ that(2)] Lst.prems(1) that(1) by simp
  have "split_ws [] (spaced (lispstr h (Lst xs)) @ rest)
          = split_ws [] ('' ( '' @ spaced (join (map (lispstr h) xs)) @ '' ) '' @ rest)"
    by (simp add: spaced_open_Cons spaced_append spaced_close)
  also have "\<dots> = ''('' # split_ws [] (spaced (join (map (lispstr h) xs)) @ '' ) '' @ rest)"
    by (rule split_open)
  also have "\<dots> = ''('' # concat (map (tokens_of h) xs) @ '')'' # split_ws [] rest"
    using split_spaced_join [of xs h rest] items by simp
  finally show ?case by simp
qed

lemma tokenize_lispstr: "canonical h e \<Longrightarrow> tokenize (lispstr h e) = tokens_of h e"
  using split_spaced_lispstr [of h e "[]"] by (simp add: tokenize_def split_def spaced_def)


subsection \<open>Reading the tokens of an expression\<close>

lemma is_token_not_paren: "is_token w \<Longrightarrow> w \<noteq> ''('' \<and> w \<noteq> '')''"
  by (auto simp: is_token_def)

lemma canonical_atom:
  assumes "canonical h e" and "\<not> is_list e"
  shows "is_token (lispstr h e) \<and> parse_atom h (lispstr h e) = e"
proof (cases e)
  case (Num n)
  then show ?thesis by (simp add: is_token_str_int parse_atom_def py_int_str_int)
next
  case (Flt x)
  with assms(1) show ?thesis by (simp add: parse_atom_def)
next
  case (Sym s)
  with assms(1) show ?thesis by (simp add: parse_atom_def)
next
  case (Lst xs)
  with assms(2) show ?thesis by simp
qed

lemma read_atom_token:
  "t \<noteq> ''('' \<Longrightarrow> t \<noteq> '')'' \<Longrightarrow>
   read_from_tokens h (Suc m) (t # rest) = Some (Inr (parse_atom h t, rest))"
  by (cases "''('' = t"; cases "'')'' = t") simp_all

lemma read_canonical_atom:
  assumes "canonical h e" and "\<not> is_list e"
  shows "read_from_tokens h (Suc m) (tokens_of h e @ rest) = Some (Inr (e, rest))"
proof -
  from canonical_atom [OF assms] have tok: "is_token (lispstr h e)"
    and pa: "parse_atom h (lispstr h e) = e" by simp_all
  from is_token_not_paren [OF tok] have "lispstr h e \<noteq> ''(''" "lispstr h e \<noteq> '')''" by simp_all
  then have "read_from_tokens h (Suc m) (lispstr h e # rest)
      = Some (Inr (parse_atom h (lispstr h e), rest))"
    by (rule read_atom_token)
  moreover from assms(2) have "tokens_of h e = [lispstr h e]" by (cases e) simp_all
  ultimately show ?thesis using pa by (simp del: read_from_tokens.simps)
qed

lemma tokens_first:
  assumes "canonical h e"
  shows "\<exists>t ts. tokens_of h e = t # ts \<and> t \<noteq> '')''"
proof (cases "is_list e")
  case True
  then obtain xs where "e = Lst xs" by (cases e) simp_all
  then show ?thesis by simp
next
  case False
  from canonical_atom [OF assms False] is_token_not_paren have "lispstr h e \<noteq> '')''" by blast
  moreover from False have "tokens_of h e = [lispstr h e]" by (cases e) simp_all
  ultimately show ?thesis by simp
qed

lemma read_list_tokens:
  assumes "\<And>x n rest. x \<in> set xs \<Longrightarrow> 2 * length (tokens_of h x) + 1 \<le> n \<Longrightarrow>
             read_from_tokens h n (tokens_of h x @ rest) = Some (Inr (x, rest))"
    and "\<forall>x \<in> set xs. canonical h x"
    and "2 * length (concat (map (tokens_of h) xs)) + 2 \<le> n"
  shows "read_list h n acc (concat (map (tokens_of h) xs) @ '')'' # rest) = Some (Inr (Lst (acc @ xs), rest))"
  using assms
proof (induction xs arbitrary: n acc)
  case Nil
  then obtain m where "n = Suc m" by (cases n) simp_all
  then show ?case by simp
next
  case (Cons x xs)
  from Cons.prems(3) obtain m where n: "n = Suc m" by (cases n) simp_all
  from Cons.prems(2) have cx: "canonical h x" by simp
  from tokens_first [OF cx] obtain t ts where t: "tokens_of h x = t # ts" "t \<noteq> '')''" by blast
  let ?rest = "concat (map (tokens_of h) xs) @ '')'' # rest"
  have "2 * length (tokens_of h x) + 1 \<le> m" using Cons.prems(3) n t(1) by simp
  then have "read_from_tokens h m (tokens_of h x @ ?rest) = Some (Inr (x, ?rest))"
    by (intro Cons.prems(1)) simp_all
  then have "read_from_tokens h m (t # ts @ ?rest) = Some (Inr (x, ?rest))"
    using t(1) by simp
  with t(2) have step: "read_list h (Suc m) acc (t # ts @ ?rest) = read_list h m (acc @ [x]) ?rest"
    by (rule read_list_element)
  have "read_list h m (acc @ [x]) ?rest = Some (Inr (Lst ((acc @ [x]) @ xs), rest))"
  proof (rule Cons.IH)
    show "read_from_tokens h n (tokens_of h y @ rest) = Some (Inr (y, rest))"
      if "y \<in> set xs" "2 * length (tokens_of h y) + 1 \<le> n" for y n rest
      using that by (intro Cons.prems(1)) simp_all
    show "\<forall>x \<in> set xs. canonical h x" using Cons.prems(2) by simp
    show "2 * length (concat (map (tokens_of h) xs)) + 2 \<le> m" using Cons.prems(3) n t(1) by simp
  qed
  with step show ?case using n t(1) by (simp del: read_list.simps)
qed

lemma read_tokens:
  "canonical h e \<Longrightarrow> 2 * length (tokens_of h e) + 1 \<le> n \<Longrightarrow>
   read_from_tokens h n (tokens_of h e @ rest) = Some (Inr (e, rest))"
proof (induction e arbitrary: n rest)
  case (Lst xs)
  from Lst.prems(2) obtain m where n: "n = Suc m" by (cases n) simp_all
  have "read_list h m [] (concat (map (tokens_of h) xs) @ '')'' # rest) = Some (Inr (Lst ([] @ xs), rest))"
  proof (rule read_list_tokens)
    show "read_from_tokens h n (tokens_of h x @ rest) = Some (Inr (x, rest))"
      if "x \<in> set xs" "2 * length (tokens_of h x) + 1 \<le> n" for x n rest
      using Lst.IH [OF that(1) _ that(2)] Lst.prems(1) that(1) by simp
    show "\<forall>x \<in> set xs. canonical h x" using Lst.prems(1) by simp
    show "2 * length (concat (map (tokens_of h) xs)) + 2 \<le> m" using Lst.prems(2) n by simp
  qed
  then show ?case using n by (simp del: read_list.simps)
next
  case (Num i)
  from Num.prems(2) obtain m where n: "n = Suc m" by (cases n) simp_all
  show ?case unfolding n by (rule read_canonical_atom [OF Num.prems(1)]) simp
next
  case (Flt x)
  from Flt.prems(2) obtain m where n: "n = Suc m" by (cases n) simp_all
  show ?case unfolding n by (rule read_canonical_atom [OF Flt.prems(1)]) simp
next
  case (Sym s)
  from Sym.prems(2) obtain m where n: "n = Suc m" by (cases n) simp_all
  show ?case unfolding n by (rule read_canonical_atom [OF Sym.prems(1)]) simp
qed

lemma parse_tokens:
  assumes "canonical h e" and "tokenize source = tokens_of h e"
  shows "parse h source = Some (Inr e)"
proof -
  have "read_from_tokens h (2 * length (tokens_of h e) + 2) (tokens_of h e @ []) = Some (Inr (e, []))"
    by (rule read_tokens [OF assms(1)]) simp
  then show ?thesis by (simp add: parse_def assms(2) del: read_from_tokens.simps)
qed


text \<open>
  The claim C9 as it is stated fails at the source \<open>+1\<close>, a single token with no
  whitespace: \<open>int('+1')\<close> is 1, which prints as \<open>1\<close>, and normalizing whitespace
  leaves \<open>+1\<close> as it is. It fails also at the source \<open>1 2\<close>, two tokens with a single
  space between them: \<open>parse\<close> reads one expression and drops the tokens after it.
\<close>

theorem roundtrip_counterexample:
  "map_option (map_sum id (lispstr (floats adding_host))) (parse (floats adding_host) ''+1'')
     = Some (Inr ''1'')
   \<and> normalize ''+1'' = ''+1''
   \<and> map_option (map_sum id (lispstr (floats adding_host))) (parse (floats adding_host) ''+1'')
     \<noteq> Some (Inr (normalize ''+1''))
   \<and> map_option (map_sum id (lispstr (floats adding_host))) (parse (floats adding_host) ''1 2'')
     = Some (Inr ''1'')
   \<and> normalize ''1 2'' = ''1 2''
   \<and> map_option (map_sum id (lispstr (floats adding_host))) (parse (floats adding_host) ''1 2'')
     \<noteq> Some (Inr (normalize ''1 2''))"
  by code_simp

text \<open>
  Claim C9, amended. For every canonical expression \<open>e\<close> and every source with the same
  tokens as \<open>lispstr(e)\<close> (the source is \<open>lispstr(e)\<close> up to whitespace around the
  tokens), \<open>parse\<close> returns \<open>e\<close>, so that printing the parsed source gives
  \<open>lispstr(e)\<close>; in particular \<open>parse(lispstr(e))\<close> is \<open>e\<close>. The witness is the source
  \<open>(+ 1 2)\<close>, which round-trips exactly, also from a source with more whitespace.
\<close>

theorem roundtrip_canonical:
  assumes "canonical h e" and "tokenize source = tokenize (lispstr h e)"
  shows "parse h source = Some (Inr e)
       \<and> map_option (map_sum id (lispstr h)) (parse h source) = Some (Inr (lispstr h e))
       \<and> parse h (lispstr h e) = Some (Inr e)"
proof -
  note t = tokenize_lispstr [OF assms(1)]
  from parse_tokens [OF assms(1), of source] assms(2) t
  have "parse h source = Some (Inr e)" by simp
  moreover from parse_tokens [OF assms(1) t] have "parse h (lispstr h e) = Some (Inr e)" .
  ultimately show ?thesis by simp
qed

theorem roundtrip_canonical_witness:
  "map_option (map_sum id (lispstr (floats adding_host))) (parse (floats adding_host) ''(+ 1 2)'')
     = Some (Inr ''(+ 1 2)'')
   \<and> map_option (map_sum id (lispstr (floats adding_host)))
        (parse (floats adding_host) ''  ( +   1 2 ) '')
     = Some (Inr ''(+ 1 2)'')"
proof -
  let ?F = "floats adding_host"
  let ?e = "Lst [Sym ''+'', Num 1, Num 2] :: unit exp"
  have c: "canonical ?F ?e" by code_simp
  have l: "lispstr ?F ?e = ''(+ 1 2)''" by code_simp
  have t1: "tokenize ''(+ 1 2)'' = tokenize (lispstr ?F ?e)" unfolding l ..
  have t2: "tokenize ''  ( +   1 2 ) '' = tokenize (lispstr ?F ?e)" unfolding l by code_simp
  from roundtrip_canonical [OF c t1] roundtrip_canonical [OF c t2] l
  show ?thesis by simp
qed

end
